theory Spec2Isabelle
  imports Complex_Main "HOL-Library.Word" "HOL-Library.Multiset"
begin

section \<open>Byte buffers and runtime errors\<close>

text \<open>
  A \<open>Buffer\<close>, \<open>Uint8Array\<close> or \<open>ArrayBuffer\<close> is a list of bytes. JavaScript numbers
  that hold sizes, offsets and counts are natural numbers (they never overflow in the
  ranges the codec uses: a sum of two 32-bit values is exact in a double).

  Every exception of the source is a value: the five \<open>throw new Error('Invalid ICO
  file: ...')\<close> of the reader, the \<open>Error\<close> of the bitmap decoder, and the runtime's
  own \<open>RangeError\<close> (a read or write outside a buffer) and \<open>TypeError\<close> (a property of
  \<open>undefined\<close>, \<open>reduce\<close> of an empty array without an initial value).
\<close>

type_synonym byte = "8 word"

datatype error =
    TooSmall                   \<comment> \<open>'Invalid ICO file: too small'\<close>
  | IncorrectHeader            \<comment> \<open>'Invalid ICO file: incorrect header'\<close>
  | InvalidImageCount          \<comment> \<open>'Invalid ICO file: invalid image count'\<close>
  | TruncatedDirectoryEntry    \<comment> \<open>'Invalid ICO file: truncated directory entry'\<close>
  | ImageDataOutOfBounds       \<comment> \<open>'Invalid ICO file: image data out of bounds'\<close>
  | InvalidFile                \<comment> \<open>'Invalid ICO file: file format or size is invalid'\<close>
  | BmpDataTooSmall            \<comment> \<open>'BMP data too small for WxH image'\<close>
  | ImageLoadError             \<comment> \<open>a rejected \<open>loadImage\<close> promise\<close>
  | RangeError
  | TypeError

text \<open>The errors the reader raises on purpose: the spec's \<open>FormatError\<close>.\<close>

definition is_FormatError :: "error \<Rightarrow> bool" where
  "is_FormatError e \<longleftrightarrow>
     e \<in> {TooSmall, IncorrectHeader, InvalidImageCount, TruncatedDirectoryEntry,
          ImageDataOutOfBounds}"

text \<open>Sequencing of two steps that may throw.\<close>

definition and_then :: "error + 'a \<Rightarrow> ('a \<Rightarrow> error + 'b) \<Rightarrow> error + 'b" where
  "and_then r f = (case r of Inl e \<Rightarrow> Inl e | Inr v \<Rightarrow> f v)"

subsection \<open>Reads: \<open>Buffer.readUInt8\<close>, \<open>readUInt16LE\<close>, \<open>readUInt32LE\<close>\<close>

text \<open>
  Node's readers (and \<open>DataView.getUint8/16/32\<close> with \<open>littleEndian = true\<close>, which
  the browser copy of the reader uses) throw a \<open>RangeError\<close> when the field does not
  lie inside the buffer.
\<close>

definition readUInt8 :: "byte list \<Rightarrow> nat \<Rightarrow> error + nat" where
  "readUInt8 buf off =
     (if off + 1 \<le> length buf then Inr (unat (buf ! off)) else Inl RangeError)"

definition readUInt16LE :: "byte list \<Rightarrow> nat \<Rightarrow> error + nat" where
  "readUInt16LE buf off =
     (if off + 2 \<le> length buf
      then Inr (unat (buf ! off) + 256 * unat (buf ! (off + 1)))
      else Inl RangeError)"

definition readUInt32LE :: "byte list \<Rightarrow> nat \<Rightarrow> error + nat" where
  "readUInt32LE buf off =
     (if off + 4 \<le> length buf
      then Inr (unat (buf ! off) + 256 * unat (buf ! (off + 1))
                + 65536 * unat (buf ! (off + 2)) + 16777216 * unat (buf ! (off + 3)))
      else Inl RangeError)"

text \<open>\<open>buf.subarray(start, end)\<close> and \<open>arrayBuffer.slice(start, end)\<close> for
  \<open>start \<le> end\<close>: both clamp to the buffer.\<close>

definition subarray :: "byte list \<Rightarrow> nat \<Rightarrow> nat \<Rightarrow> byte list" where
  "subarray buf start end' = take (end' - start) (drop start buf)"

section \<open>The ICO reader (server/services/ico-parser.ts)\<close>

datatype image_format = Png | Bmp

record IcoImage =
  width :: nat
  height :: nat
  buffer :: "byte list"
  format :: image_format

text \<open>The magic-byte test of the reader: at least 8 bytes, the first four
  \<open>89 50 4E 47\<close>.\<close>

definition detect_format :: "byte list \<Rightarrow> image_format" where
  "detect_format imageBuffer =
     (if length imageBuffer \<ge> 8 \<and> imageBuffer ! 0 = 0x89 \<and> imageBuffer ! 1 = 0x50
         \<and> imageBuffer ! 2 = 0x4E \<and> imageBuffer ! 3 = 0x47
      then Png else Bmp)"

text \<open>One turn of the directory loop: entry \<open>i\<close> is checked, read and its image
  sliced out. \<open>x || 256\<close> turns a 0 byte into 256.\<close>

definition parse_entry :: "byte list \<Rightarrow> nat \<Rightarrow> error + IcoImage" where
  "parse_entry icoBuffer i =
     (let entryOffset = 6 + i * 16 in
      if entryOffset + 16 > length icoBuffer then Inl TruncatedDirectoryEntry
      else
        and_then (readUInt8 icoBuffer entryOffset) (\<lambda>w.
        and_then (readUInt8 icoBuffer (entryOffset + 1)) (\<lambda>h.
        and_then (readUInt32LE icoBuffer (entryOffset + 8)) (\<lambda>imageSize.
        and_then (readUInt32LE icoBuffer (entryOffset + 12)) (\<lambda>imageOffset.
          if imageOffset + imageSize > length icoBuffer then Inl ImageDataOutOfBounds
          else
            let imageBuffer = subarray icoBuffer imageOffset (imageOffset + imageSize) in
            Inr \<lparr> width = (if w = 0 then 256 else w),
                  height = (if h = 0 then 256 else h),
                  buffer = imageBuffer,
                  format = detect_format imageBuffer \<rparr>)))))"

text \<open>\<open>for (let i = 0; i < count; i++) { ...; images.push(...) }\<close>; the parameter
  \<open>count\<close> is \<open>count'\<close> here.\<close>

function parse_entries ::
  "byte list \<Rightarrow> nat \<Rightarrow> nat \<Rightarrow> IcoImage list \<Rightarrow> error + IcoImage list" where
  "parse_entries icoBuffer count' i images =
     (if i < count' then
        (case parse_entry icoBuffer i of
           Inl e \<Rightarrow> Inl e
         | Inr img \<Rightarrow> parse_entries icoBuffer count' (i + 1) (images @ [img]))
      else Inr images)"
  by pat_completeness auto
termination
  by (relation "measure (\<lambda>(icoBuffer, count', i, images). count' - i)") auto

declare parse_entries.simps [simp del]

definition parse :: "byte list \<Rightarrow> error + IcoImage list" where
  "parse icoBuffer =
     (if length icoBuffer < 6 then Inl TooSmall
      else
        and_then (readUInt16LE icoBuffer 0) (\<lambda>reserved.
        and_then (readUInt16LE icoBuffer 2) (\<lambda>type.
        and_then (readUInt16LE icoBuffer 4) (\<lambda>count.
          if reserved \<noteq> 0 \<or> type \<noteq> 1 then Inl IncorrectHeader
          else if count = 0 \<or> count > 255 then Inl InvalidImageCount
          else parse_entries icoBuffer count 0 []))))"

subsection \<open>Best-match selection\<close>

text \<open>\<open>Array.prototype.reduce\<close> without an initial value: the first element starts
  the fold, and an empty array is a \<open>TypeError\<close>.\<close>

fun reduce :: "('a \<Rightarrow> 'a \<Rightarrow> 'a) \<Rightarrow> 'a list \<Rightarrow> error + 'a" where
  "reduce f [] = Inl TypeError"
| "reduce f (x # xs) = Inr (foldl f x xs)"

text \<open>
  \<open>ClientIcoProcessor.getBestMatch\<close> (client/src/lib/ico-processor.ts; the file holds
  two copies of the class, and the two copies of this method are the same text).
  \<open>None\<close> is JavaScript's \<open>null\<close>.
\<close>

definition getBestMatch :: "IcoImage list \<Rightarrow> nat \<Rightarrow> error + IcoImage option" where
  "getBestMatch images targetSize =
     (if length images = 0 then Inr None
      else
        (case find (\<lambda>img. width img = targetSize \<and> height img = targetSize) images of
           Some exactMatch \<Rightarrow> Inr (Some exactMatch)
         | None \<Rightarrow>
            (let largerImages =
                   filter (\<lambda>img. width img \<ge> targetSize \<and> height img \<ge> targetSize) images
             in if length largerImages > 0
                then and_then
                       (reduce (\<lambda>best current.
                          if width current * height current < width best * height best
                          then current else best) largerImages)
                       (\<lambda>r. Inr (Some r))
                else and_then
                       (reduce (\<lambda>best current.
                          if width current * height current > width best * height best
                          then current else best) images)
                       (\<lambda>r. Inr (Some r)))))"

text \<open>\<open>IcoParser.getBestMatch\<close> (server/services/ico-parser.ts): the same shape, but
  it measures an image by \<open>Math.max(width, height)\<close>.\<close>

definition IcoParser_getBestMatch :: "IcoImage list \<Rightarrow> nat \<Rightarrow> error + IcoImage option" where
  "IcoParser_getBestMatch images targetSize =
     (if length images = 0 then Inr None
      else
        (case find (\<lambda>img. width img = targetSize \<and> height img = targetSize) images of
           Some exactMatch \<Rightarrow> Inr (Some exactMatch)
         | None \<Rightarrow>
            (let largerSizes =
                   filter (\<lambda>img. max (width img) (height img) \<ge> targetSize) images
             in if length largerSizes > 0
                then and_then
                       (reduce (\<lambda>closest current.
                          let closestSize = max (width closest) (height closest);
                              currentSize = max (width current) (height current)
                          in if currentSize < closestSize then current else closest)
                          largerSizes)
                       (\<lambda>r. Inr (Some r))
                else and_then
                       (reduce (\<lambda>largest current.
                          let largestSize = max (width largest) (height largest);
                              currentSize = max (width current) (height current)
                          in if currentSize > largestSize then current else largest)
                          images)
                       (\<lambda>r. Inr (Some r)))))"

text \<open>The seven canonical sizes, \<open>targetSizes\<close> / \<open>ICON_SIZES\<close> in the source.\<close>

definition ICON_SIZES :: "nat list" where
  "ICON_SIZES = [16, 20, 24, 32, 40, 64, 256]"

subsection \<open>The reader's failure conditions, in the words of the spec\<close>

text \<open>Little-endian fields of a buffer, read where they lie inside it.\<close>

definition u16_at :: "byte list \<Rightarrow> nat \<Rightarrow> nat" where
  "u16_at buf off = unat (buf ! off) + 256 * unat (buf ! (off + 1))"

definition u32_at :: "byte list \<Rightarrow> nat \<Rightarrow> nat" where
  "u32_at buf off =
     unat (buf ! off) + 256 * unat (buf ! (off + 1))
     + 65536 * unat (buf ! (off + 2)) + 16777216 * unat (buf ! (off + 3))"

definition declared_count :: "byte list \<Rightarrow> nat" where
  "declared_count buf = u16_at buf 4"

text \<open>
  \<^item> buffer length < 6;
  \<^item> reserved field not 0 or type field not 1;
  \<^item> declared image count 0 or greater than 255;
  \<^item> one of the \<open>count\<close> 16-byte directory entries extends past the buffer;
  \<^item> a directory entry's \<open>imageOffset + imageSize\<close> exceeds the buffer length.
\<close>

definition spec_format_error :: "byte list \<Rightarrow> bool" where
  "spec_format_error buf \<longleftrightarrow>
       length buf < 6
     \<or> u16_at buf 0 \<noteq> 0 \<or> u16_at buf 2 \<noteq> 1
     \<or> declared_count buf = 0 \<or> declared_count buf > 255
     \<or> (\<exists>i \<in> {0..<declared_count buf}. 6 + 16 * i + 16 > length buf)
     \<or> (\<exists>i \<in> {0..<declared_count buf}.
           u32_at buf (6 + 16 * i + 12) + u32_at buf (6 + 16 * i + 8) > length buf)"

text \<open>Pixel area, the measure of the best-match rule.\<close>

definition pixel_area :: "IcoImage \<Rightarrow> nat" where
  "pixel_area img = width img * height img"

text \<open>Entry \<open>i\<close> of the directory stops the loop: it is truncated, or its image lies
  outside the buffer.\<close>

definition entry_fails :: "byte list \<Rightarrow> nat \<Rightarrow> bool" where
  "entry_fails buf i \<longleftrightarrow>
     6 + 16 * i + 16 > length buf
     \<or> u32_at buf (6 + 16 * i + 12) + u32_at buf (6 + 16 * i + 8) > length buf"

section \<open>The raw-bitmap decoder (client/src/lib/ico-processor.ts, parseBmpToRgba)\<close>

text \<open>
  Reading a typed array outside its bounds gives \<open>undefined\<close>, which a \<open>Uint8Array\<close>
  stores as 0; writing outside its bounds is ignored, as \<open>list_update\<close> is.
\<close>

definition byte_at :: "byte list \<Rightarrow> nat \<Rightarrow> byte" where
  "byte_at buf i = (if i < length buf then buf ! i else 0)"

text \<open>The inner loop \<open>for (let x = 0; x < width; x++)\<close> of row \<open>y\<close>.\<close>

function bmp_row ::
  "byte list \<Rightarrow> nat \<Rightarrow> nat \<Rightarrow> nat \<Rightarrow> nat \<Rightarrow> byte list \<Rightarrow> byte list" where
  "bmp_row bmpBuffer w h y x rgbaData =
     (if x < w then
        (let sourceIndex = 40 + ((h - 1 - y) * w + x) * 4;
             targetIndex = (y * w + x) * 4
         in bmp_row bmpBuffer w h y (x + 1)
              (rgbaData[targetIndex := byte_at bmpBuffer (sourceIndex + 2),
                        targetIndex + 1 := byte_at bmpBuffer (sourceIndex + 1),
                        targetIndex + 2 := byte_at bmpBuffer sourceIndex,
                        targetIndex + 3 := byte_at bmpBuffer (sourceIndex + 3)]))
      else rgbaData)"
  by pat_completeness auto
termination
  by (relation "measure (\<lambda>(bmpBuffer, w, h, y, x, rgbaData). w - x)") auto

declare bmp_row.simps [simp del]

text \<open>The outer loop \<open>for (let y = 0; y < height; y++)\<close>.\<close>

function bmp_rows ::
  "byte list \<Rightarrow> nat \<Rightarrow> nat \<Rightarrow> nat \<Rightarrow> byte list \<Rightarrow> byte list" where
  "bmp_rows bmpBuffer w h y rgbaData =
     (if y < h then bmp_rows bmpBuffer w h (y + 1) (bmp_row bmpBuffer w h y 0 rgbaData)
      else rgbaData)"
  by pat_completeness auto
termination
  by (relation "measure (\<lambda>(bmpBuffer, w, h, y, rgbaData). h - y)") auto

declare bmp_rows.simps [simp del]

definition parseBmpToRgba :: "byte list \<Rightarrow> nat \<Rightarrow> nat \<Rightarrow> error + byte list" where
  "parseBmpToRgba bmpBuffer w h =
     (let rgbaData = replicate (w * h * 4) 0;
          headerSize = 40;
          dataOffset = headerSize
      in if dataOffset + w * h * 4 > length bmpBuffer then Inl BmpDataTooSmall
         else Inr (bmp_rows bmpBuffer w h 0 rgbaData))"

text \<open>The spec's words: the source byte of channel \<open>c\<close> (0 = R, 1 = G, 2 = B, 3 = A) of
  the output pixel at column \<open>x\<close>, row \<open>y\<close>: 40 bytes of header, bottom-up rows, BGRA.\<close>

definition bgra_channel :: "nat \<Rightarrow> nat" where
  "bgra_channel c = (if c = 0 then 2 else if c = 1 then 1 else if c = 2 then 0 else 3)"

definition source_offset :: "nat \<Rightarrow> nat \<Rightarrow> nat \<Rightarrow> nat \<Rightarrow> nat" where
  "source_offset w h x y = 40 + ((h - 1 - y) * w + x) * 4"

text \<open>Channel \<open>c\<close> of the output pixel at column \<open>x\<close>, row \<open>y\<close>, as the loop body
  reads it.\<close>

definition px :: "byte list \<Rightarrow> nat \<Rightarrow> nat \<Rightarrow> nat \<Rightarrow> nat \<Rightarrow> nat \<Rightarrow> byte" where
  "px buf w h x y c = byte_at buf (source_offset w h x y + bgra_channel c)"

section \<open>The ICO writer (client/src/lib/icon-generator.ts, createIcoFromPngs)\<close>

text \<open>
  \<open>imageBuffers: Record<string, ArrayBuffer>\<close> maps the decimal string of a size to a
  PNG buffer. It is an association list from sizes to buffers, read through \<open>map_of\<close>;
  its keys, \<open>Object.keys(imageBuffers).map(Number)\<close>, are the distinct first components.
\<close>

type_synonym image_buffers = "(nat \<times> byte list) list"

subsection \<open>Writes: \<open>DataView.setUint8\<close>, \<open>setUint16\<close>, \<open>setUint32\<close>, \<open>Uint8Array.set\<close>\<close>

text \<open>
  A \<open>DataView\<close> setter converts its value to the field's width, keeping the low bits
  (\<open>of_nat\<close> into a byte does that), stores it little-endian (\<open>littleEndian = true\<close>),
  and throws a \<open>RangeError\<close> when the field does not lie inside the buffer; so does
  \<open>Uint8Array.set\<close> when the source does not fit at the offset.
\<close>

definition setUint8 :: "byte list \<Rightarrow> nat \<Rightarrow> nat \<Rightarrow> error + byte list" where
  "setUint8 view byteOffset v =
     (if byteOffset + 1 \<le> length view then Inr (view[byteOffset := of_nat v])
      else Inl RangeError)"

definition setUint16 :: "byte list \<Rightarrow> nat \<Rightarrow> nat \<Rightarrow> error + byte list" where
  "setUint16 view byteOffset v =
     (if byteOffset + 2 \<le> length view
      then Inr (view[byteOffset := of_nat v, byteOffset + 1 := of_nat (v div 256)])
      else Inl RangeError)"

definition setUint32 :: "byte list \<Rightarrow> nat \<Rightarrow> nat \<Rightarrow> error + byte list" where
  "setUint32 view byteOffset v =
     (if byteOffset + 4 \<le> length view
      then Inr (view[byteOffset := of_nat v, byteOffset + 1 := of_nat (v div 256),
                     byteOffset + 2 := of_nat (v div 65536),
                     byteOffset + 3 := of_nat (v div 16777216)])
      else Inl RangeError)"

definition set_array :: "byte list \<Rightarrow> byte list \<Rightarrow> nat \<Rightarrow> error + byte list" where
  "set_array view src off =
     (if off + length src \<le> length view
      then Inr (take off view @ src @ drop (off + length src) view)
      else Inl RangeError)"

subsection \<open>The writer\<close>

text \<open>\<open>for (const size of sizes) totalSize += imageBuffers[size.toString()].byteLength\<close>;
  \<open>byteLength\<close> of a missing entry would be a \<open>TypeError\<close>.\<close>

fun total_size :: "image_buffers \<Rightarrow> nat list \<Rightarrow> nat \<Rightarrow> error + nat" where
  "total_size imageBuffers [] totalSize = Inr totalSize"
| "total_size imageBuffers (s # sizes) totalSize =
     (case map_of imageBuffers s of
        None \<Rightarrow> Inl TypeError
      | Some imageBuffer \<Rightarrow> total_size imageBuffers sizes (totalSize + length imageBuffer))"

text \<open>The body of the loop over \<open>i\<close>: the eight fields of directory entry \<open>i\<close>, then the
  image data at \<open>currentOffset\<close>. It returns the buffer and the new \<open>currentOffset\<close>.\<close>

definition write_entry ::
  "image_buffers \<Rightarrow> nat list \<Rightarrow> nat \<Rightarrow> nat \<Rightarrow> byte list \<Rightarrow> error + (byte list \<times> nat)" where
  "write_entry imageBuffers sizes i currentOffset view =
     (let sz = sizes ! i in
      case map_of imageBuffers sz of
        None \<Rightarrow> Inl TypeError
      | Some imageBuffer \<Rightarrow>
         (let entryOffset = 6 + i * 16 in
          and_then (setUint8 view entryOffset (if sz = 256 then 0 else sz)) (\<lambda>view.
          and_then (setUint8 view (entryOffset + 1) (if sz = 256 then 0 else sz)) (\<lambda>view.
          and_then (setUint8 view (entryOffset + 2) 0) (\<lambda>view.
          and_then (setUint8 view (entryOffset + 3) 0) (\<lambda>view.
          and_then (setUint16 view (entryOffset + 4) 1) (\<lambda>view.
          and_then (setUint16 view (entryOffset + 6) 32) (\<lambda>view.
          and_then (setUint32 view (entryOffset + 8) (length imageBuffer)) (\<lambda>view.
          and_then (setUint32 view (entryOffset + 12) currentOffset) (\<lambda>view.
          and_then (set_array view imageBuffer currentOffset) (\<lambda>view.
            Inr (view, currentOffset + length imageBuffer))))))))))))"

text \<open>\<open>for (let i = 0; i < count; i++) { ... }\<close>\<close>

function write_entries ::
  "image_buffers \<Rightarrow> nat list \<Rightarrow> nat \<Rightarrow> nat \<Rightarrow> byte list \<Rightarrow> error + byte list" where
  "write_entries imageBuffers sizes i currentOffset view =
     (if i < length sizes then
        (case write_entry imageBuffers sizes i currentOffset view of
           Inl e \<Rightarrow> Inl e
         | Inr (view', currentOffset') \<Rightarrow>
             write_entries imageBuffers sizes (i + 1) currentOffset' view')
      else Inr view)"
  by pat_completeness auto
termination
  by (relation "measure (\<lambda>(imageBuffers, sizes, i, currentOffset, view). length sizes - i)")
    auto

declare write_entries.simps [simp del]

definition createIcoFromPngs :: "image_buffers \<Rightarrow> error + byte list" where
  "createIcoFromPngs imageBuffers =
     (let sizes = sort (remdups (map fst imageBuffers));
          count = length sizes;
          headerSize = 6 + count * 16
      in and_then (total_size imageBuffers sizes headerSize) (\<lambda>totalSize.
           let view = replicate totalSize 0 in
           and_then (setUint16 view 0 0) (\<lambda>view.
           and_then (setUint16 view 2 1) (\<lambda>view.
           and_then (setUint16 view 4 count) (\<lambda>view.
             write_entries imageBuffers sizes 0 headerSize view)))))"

subsection \<open>The container layout, in the words of the spec\<close>

text \<open>Little-endian encodings of a number in two and in four bytes.\<close>

definition u16le :: "nat \<Rightarrow> byte list" where
  "u16le v = [of_nat v, of_nat (v div 256)]"

definition u32le :: "nat \<Rightarrow> byte list" where
  "u32le v = [of_nat v, of_nat (v div 256), of_nat (v div 65536), of_nat (v div 16777216)]"

text \<open>Header: reserved 0, type 1, count.\<close>

definition ico_header :: "nat \<Rightarrow> byte list" where
  "ico_header count' = u16le 0 @ u16le 1 @ u16le count'"

text \<open>The width and height byte of a size: 0 for 256, the size otherwise (as a byte: its
  low eight bits).\<close>

definition dir_byte :: "nat \<Rightarrow> byte" where
  "dir_byte s = of_nat (if s = 256 then 0 else s)"

text \<open>A directory entry: width, height, colour count 0, reserved 0, planes 1, bits per
  pixel 32, image size, image offset.\<close>

definition dir_entry :: "nat \<Rightarrow> nat \<Rightarrow> nat \<Rightarrow> byte list" where
  "dir_entry s imageSize imageOffset =
     [dir_byte s, dir_byte s, 0, 0] @ u16le 1 @ u16le 32 @ u32le imageSize @ u32le imageOffset"

text \<open>The sizes in ascending order, each with its buffer.\<close>

definition sorted_images :: "image_buffers \<Rightarrow> (nat \<times> byte list) list" where
  "sorted_images imageBuffers =
     map (\<lambda>s. (s, case map_of imageBuffers s of Some b \<Rightarrow> b | None \<Rightarrow> []))
       (sort (remdups (map fst imageBuffers)))"

text \<open>The offset of image \<open>i\<close>: 6 + 16 * count plus the lengths of the payloads before
  it.\<close>

definition image_offset :: "(nat \<times> byte list) list \<Rightarrow> nat \<Rightarrow> nat" where
  "image_offset items i =
     6 + 16 * length items + sum_list (map (\<lambda>(s, b). length b) (take i items))"

definition ico_layout :: "(nat \<times> byte list) list \<Rightarrow> byte list" where
  "ico_layout items =
     ico_header (length items)
     @ concat (map (\<lambda>i. dir_entry (fst (items ! i)) (length (snd (items ! i)))
                           (image_offset items i)) [0..<length items])
     @ concat (map snd items)"

text \<open>Storing the bytes \<open>bs\<close> at offset \<open>off\<close> of a buffer: what every write above does,
  where it is in range.\<close>

definition write_at :: "byte list \<Rightarrow> nat \<Rightarrow> byte list \<Rightarrow> byte list" where
  "write_at view off bs = take off view @ bs @ drop (off + length bs) view"

text \<open>The directory of a list of images, with the running offset of the writer's loop.\<close>

fun dir_from :: "(nat \<times> byte list) list \<Rightarrow> nat \<Rightarrow> byte list" where
  "dir_from [] off = []"
| "dir_from ((s, b) # rest) off = dir_entry s (length b) off @ dir_from rest (off + length b)"

text \<open>The total length of the payloads of a list of images.\<close>

definition payload_length :: "(nat \<times> byte list) list \<Rightarrow> nat" where
  "payload_length items = sum_list (map (\<lambda>(s, b). length b) items)"

text \<open>Directory entry \<open>i\<close> of the layout.\<close>

definition entry_of :: "(nat \<times> byte list) list \<Rightarrow> nat \<Rightarrow> byte list" where
  "entry_of items i =
     dir_entry (fst (items ! i)) (length (snd (items ! i))) (image_offset items i)"

text \<open>The eight bytes every PNG file starts with.\<close>

definition png_signature :: "byte list" where
  "png_signature = [0x89, 0x50, 0x4E, 0x47, 0x0D, 0x0A, 0x1A, 0x0A]"

text \<open>The descriptor the round trip is to give for a size and its PNG buffer.\<close>

definition png_descriptor :: "nat \<times> byte list \<Rightarrow> IcoImage" where
  "png_descriptor item =
     \<lparr> width = fst item, height = fst item, buffer = snd item, format = Png \<rparr>"

section \<open>Layers (client/src/types/icon-types.ts)\<close>

text \<open>
  The \<open>Layer\<close> of the zod schema. JavaScript numbers that are not sizes or offsets
  (coordinates, scales, opacity) are rationals: their arithmetic is taken exact. A
  \<open>Record<string, T>\<close> keyed by \<open>size.toString()\<close> is a map from sizes; an optional
  field is an \<open>option\<close>. Three fields are renamed, as their names are taken in HOL:
  \<open>id\<close>, \<open>type\<close> and \<open>order\<close> are \<open>layer_id\<close>, \<open>layer_type\<close> and \<open>layer_order\<close>;
  so are the coordinates \<open>x\<close> and \<open>y\<close> of a position, and the fields of a colour.
\<close>

datatype LayerType = BackFolder | FrontFolder | UserImage

datatype ColorType = Solid | Linear | Radial

record gradient =
  gradient_start :: string
  gradient_end :: string
  direction :: "rat option"

record color =
  color_type :: ColorType
  color_value :: string
  color_gradient :: "gradient option"

record position =
  pos_x :: rat
  pos_y :: rat

record Layer =
  layer_id :: string
  layer_type :: LayerType
  visible :: bool
  opacity :: rat
  color :: "color option"
  useColor :: bool
  imageUrl :: "string option"
  sizeSpecificImages :: "(nat \<rightharpoonup> string) option"
  position :: position
  scale :: rat
  layer_order :: int
  visibilityBySize :: "(nat \<rightharpoonup> bool) option"
  positionBySize :: "(nat \<rightharpoonup> position) option"
  scaleBySize :: "(nat \<rightharpoonup> rat) option"

section \<open>Reordering (client/src/pages/icon-designer, reorderLayers)\<close>

text \<open>
  \<open>[...layers].sort((a, b) => b.order - a.order)\<close>: a stable sort by descending order.
  \<open>sortedLayers[i]\<close> outside the array is \<open>undefined\<close>, and then the function returns
  without a state change. The new state is \<open>prev.map(...)\<close> of the same layers.
\<close>

definition reorderLayers :: "Layer list \<Rightarrow> nat \<Rightarrow> nat \<Rightarrow> Layer list" where
  "reorderLayers layers dragIndex hoverIndex =
     (let sortedLayers = sort_key (\<lambda>l. - layer_order l) layers in
      if \<not> dragIndex < length sortedLayers \<or> \<not> hoverIndex < length sortedLayers then layers
      else
        (let draggedLayer = sortedLayers ! dragIndex;
             targetLayer = sortedLayers ! hoverIndex;
             newDragOrder = layer_order targetLayer;
             newTargetOrder = layer_order draggedLayer
         in map (\<lambda>layer.
                  if layer_id layer = layer_id draggedLayer
                  then layer\<lparr>layer_order := newDragOrder\<rparr>
                  else if layer_id layer = layer_id targetLayer
                  then layer\<lparr>layer_order := newTargetOrder\<rparr>
                  else layer) layers))"

text \<open>\<open>createDefaultLayers\<close> (client/src/lib/canvas-utils): the three layers of a new
  project.\<close>

definition createDefaultLayers :: "Layer list" where
  "createDefaultLayers =
     [\<lparr> layer_id = ''back-folder'', layer_type = BackFolder, visible = True, opacity = 100,
         color = Some \<lparr> color_type = Solid, color_value = ''#EA580C'', color_gradient = None \<rparr>,
         useColor = False, imageUrl = None, sizeSpecificImages = None,
         position = \<lparr> pos_x = 128, pos_y = 128 \<rparr>, scale = 1, layer_order = 0,
         visibilityBySize = None, positionBySize = None, scaleBySize = None \<rparr>,
      \<lparr> layer_id = ''front-folder'', layer_type = FrontFolder, visible = True, opacity = 100,
         color = Some \<lparr> color_type = Solid, color_value = ''#F59E0B'', color_gradient = None \<rparr>,
         useColor = False, imageUrl = None, sizeSpecificImages = None,
         position = \<lparr> pos_x = 128, pos_y = 128 \<rparr>, scale = 1, layer_order = 1,
         visibilityBySize = None, positionBySize = None, scaleBySize = None \<rparr>,
      \<lparr> layer_id = ''user-image'', layer_type = UserImage, visible = True, opacity = 100,
         color = Some \<lparr> color_type = Solid, color_value = ''#FFFFFF'', color_gradient = None \<rparr>,
         useColor = False, imageUrl = None, sizeSpecificImages = None,
         position = \<lparr> pos_x = 128, pos_y = 128 \<rparr>, scale = 1, layer_order = 2,
         visibilityBySize = None, positionBySize = None, scaleBySize = None \<rparr>]"

section \<open>Compositing (client/src/lib/icon-generator.ts and canvas-utils)\<close>

text \<open>
  The canvas is not modelled pixel by pixel: a render is the sequence of drawing calls it
  makes on the 2D context, with their arguments. An image is named by what it was loaded
  from, a folder asset or a URL; \<open>loadImage\<close>, which the browser decides, is a
  parameter telling which sources load.
\<close>

datatype folder_side = Back | Front

datatype image_ref = FolderAsset folder_side nat | ImageUrl string

text \<open>\<open>getFolderAsset\<close> (folder-assets.ts): the asset of the closest of the seven sizes,
  \<open>availableSizes.reduce(...)\<close> started by the first size.\<close>

definition getFolderAsset :: "folder_side \<Rightarrow> nat \<Rightarrow> image_ref" where
  "getFolderAsset side sz =
     (let closestSize =
            foldl (\<lambda>prev curr. if \<bar>int curr - int sz\<bar> < \<bar>int prev - int sz\<bar> then curr else prev)
              16 [20, 24, 32, 40, 64, 256]
      in FolderAsset side closestSize)"

text \<open>What \<open>fillStyle\<close> is set to.\<close>

datatype fill_style =
    FillColor string
  | LinearGradient rat rat rat rat string string
  | RadialGradient rat rat rat rat rat rat string string

text \<open>The drawing calls: \<open>ctx.drawImage(img, x, y, w, h)\<close>; \<open>applyColorToImage\<close>, which
  draws the image into a temporary canvas of side \<open>size\<close>, fills it with source-atop
  compositing and draws that canvas at \<open>(x, y)\<close>; \<open>ctx.fillRect(x, y, w, h)\<close> with the
  fill style in force.\<close>

datatype draw_op =
    DrawImage image_ref rat rat rat rat
  | DrawTinted image_ref fill_style rat rat rat
  | FillRect fill_style rat rat rat rat

text \<open>The fill of \<open>applyColorToImage\<close> and of the fallback: a linear gradient from
  \<open>(0, 0)\<close> to \<open>(size, size)\<close>, a radial one around the centre, or the solid
  \<open>color.value\<close>.\<close>

definition fill_of :: "color \<Rightarrow> rat \<Rightarrow> fill_style" where
  "fill_of c sz =
     (case color_gradient c of
        Some g \<Rightarrow>
          (if color_type c = Linear
           then LinearGradient 0 0 sz sz (gradient_start g) (gradient_end g)
           else if color_type c = Radial
           then RadialGradient (sz / 2) (sz / 2) 0 (sz / 2) (sz / 2) (sz / 2)
                  (gradient_start g) (gradient_end g)
           else FillColor (color_value c))
      | None \<Rightarrow> FillColor (color_value c))"

definition applyColorToImage :: "image_ref \<Rightarrow> color \<Rightarrow> rat \<Rightarrow> rat \<Rightarrow> rat \<Rightarrow> draw_op list" where
  "applyColorToImage img c sz x0 y0 = [DrawTinted img (fill_of c sz) sz x0 y0]"

text \<open>\<open>renderFolderFallback\<close>: nothing unless \<open>useColor\<close>; two rectangles in the layer's
  colour (\<open>layer.color?.value || default\<close>) or gradient.\<close>

definition renderFolderFallback :: "Layer \<Rightarrow> bool \<Rightarrow> nat \<Rightarrow> draw_op list" where
  "renderFolderFallback layer isBack sz =
     (if \<not> useColor layer then []
      else
        (let s = of_nat sz :: rat;
             default = (if isBack then ''#EA580C'' else ''#F59E0B'');
             fill = (case color layer of
                       None \<Rightarrow> FillColor default
                     | Some c \<Rightarrow>
                        (case fill_of c s of
                           FillColor v \<Rightarrow> FillColor (if v \<noteq> [] then v else default)
                         | g \<Rightarrow> g))
         in if isBack
            then [FillRect fill (s * (5 / 100)) (s * (2 / 10)) (s * (8 / 10)) (s * (65 / 100)),
                  FillRect fill (s * (5 / 100)) (s * (1 / 10)) (s * (3 / 10)) (s * (1 / 10))]
            else [FillRect fill (s * (15 / 100)) (s * (15 / 100)) (s * (7 / 10)) (s * (6 / 10)),
                  FillRect fill (s * (15 / 100)) (s * (5 / 100)) (s * (25 / 100)) (s * (1 / 10))]))"

text \<open>A folder layer, once its image is there: tinted when \<open>useColor && color\<close>, plain
  otherwise.\<close>

definition draw_folder :: "Layer \<Rightarrow> image_ref \<Rightarrow> nat \<Rightarrow> draw_op list" where
  "draw_folder layer img sz =
     (case color layer of
        Some c \<Rightarrow>
          (if useColor layer then applyColorToImage img c (of_nat sz) 0 0
           else [DrawImage img 0 0 (of_nat sz) (of_nat sz)])
      | None \<Rightarrow> [DrawImage img 0 0 (of_nat sz) (of_nat sz)])"

text \<open>\<open>layer.positionBySize?.[size.toString()] || layer.position\<close> (an object is always
  truthy) and \<open>layer.scaleBySize?.[size.toString()] || layer.scale\<close> (0 is falsy).\<close>

definition currentPosition :: "Layer \<Rightarrow> nat \<Rightarrow> position" where
  "currentPosition layer sz =
     (case positionBySize layer of
        None \<Rightarrow> position layer
      | Some m \<Rightarrow> (case m sz of None \<Rightarrow> position layer | Some p \<Rightarrow> p))"

definition currentScale :: "Layer \<Rightarrow> nat \<Rightarrow> rat" where
  "currentScale layer sz =
     (case scaleBySize layer of
        None \<Rightarrow> scale layer
      | Some m \<Rightarrow> (case m sz of None \<Rightarrow> scale layer
                   | Some c \<Rightarrow> if c \<noteq> 0 then c else scale layer))"

text \<open>The drawing of a loaded user image, the same statements in both renderers:
  \<open>scaleFactor = size / 256\<close>, \<open>scaledSize = size * currentScale\<close>,
  \<open>x = currentPosition.x * scaleFactor - scaledSize / 2\<close>, and \<open>y\<close> alike.\<close>

definition draw_user_image :: "Layer \<Rightarrow> image_ref \<Rightarrow> nat \<Rightarrow> draw_op list" where
  "draw_user_image layer img sz =
     (let scaleFactor = of_nat sz / 256;
          scaledSize = of_nat sz * currentScale layer sz;
          x0 = pos_x (currentPosition layer sz) * scaleFactor - scaledSize / 2;
          y0 = pos_y (currentPosition layer sz) * scaleFactor - scaledSize / 2
      in case color layer of
           Some c \<Rightarrow>
             (if useColor layer then applyColorToImage img c scaledSize x0 y0
              else [DrawImage img x0 y0 scaledSize scaledSize])
         | None \<Rightarrow> [DrawImage img x0 y0 scaledSize scaledSize])"

subsection \<open>\<open>ClientIconGenerator\<close>: the renderer of the export\<close>

definition renderFolderLayer :: "(image_ref \<Rightarrow> bool) \<Rightarrow> Layer \<Rightarrow> nat \<Rightarrow> draw_op list" where
  "renderFolderLayer loadImage layer sz =
     (let isBack = (layer_type layer = BackFolder);
          assetPath = getFolderAsset (if isBack then Back else Front) sz
      in if loadImage assetPath then draw_folder layer assetPath sz
         else renderFolderFallback layer isBack sz)"

text \<open>\<open>renderUserImageLayer\<close>: the size-specific image first, the main image when that
  is missing or empty (\<open>!imageUrl\<close>), nothing when both are; a failed load is caught and
  draws nothing. The local variable \<open>imageUrl\<close> is \<open>imageUrl'\<close> here.\<close>

definition renderUserImageLayer :: "(image_ref \<Rightarrow> bool) \<Rightarrow> Layer \<Rightarrow> nat \<Rightarrow> draw_op list" where
  "renderUserImageLayer loadImage layer sz =
     (let imageUrl' = (case sizeSpecificImages layer of None \<Rightarrow> None | Some m \<Rightarrow> m sz);
          imageUrl' = (if imageUrl' = None \<or> imageUrl' = Some [] then imageUrl layer
                       else imageUrl')
      in if imageUrl' = None \<or> imageUrl' = Some [] then []
         else (case imageUrl' of
                 None \<Rightarrow> []
               | Some url \<Rightarrow>
                   if loadImage (ImageUrl url) then draw_user_image layer (ImageUrl url) sz
                   else []))"

text \<open>One turn of a render loop that was not skipped: the layer, the \<open>globalAlpha\<close> set
  for it, and its drawing calls.\<close>

record layer_pass =
  pass_layer :: string
  pass_alpha :: rat
  pass_ops :: "draw_op list"

text \<open>\<open>renderLayersToCanvas\<close>: the layers by ascending order (a stable sort); a layer
  with \<open>!layer.visible\<close> is skipped.\<close>

definition renderLayersToCanvas :: "(image_ref \<Rightarrow> bool) \<Rightarrow> Layer list \<Rightarrow> nat \<Rightarrow> layer_pass list" where
  "renderLayersToCanvas loadImage layers sz =
     (let sortedLayers = sort_key layer_order layers
      in map (\<lambda>layer.
                \<lparr> pass_layer = layer_id layer,
                  pass_alpha = opacity layer / 100,
                  pass_ops = (case layer_type layer of
                                BackFolder \<Rightarrow> renderFolderLayer loadImage layer sz
                              | FrontFolder \<Rightarrow> renderFolderLayer loadImage layer sz
                              | UserImage \<Rightarrow> renderUserImageLayer loadImage layer sz) \<rparr>)
           (filter (\<lambda>layer. visible layer) sortedLayers))"

subsection \<open>\<open>CanvasRenderer\<close>: the renderer of the previews\<close>

text \<open>\<open>layer.visibilityBySize?.[size.toString()] ?? layer.visible\<close>\<close>

definition isVisible :: "Layer \<Rightarrow> nat \<Rightarrow> bool" where
  "isVisible layer sz =
     (case visibilityBySize layer of
        None \<Rightarrow> visible layer
      | Some m \<Rightarrow> (case m sz of None \<Rightarrow> visible layer | Some v \<Rightarrow> v))"

text \<open>\<open>renderUserImage\<close>: a size-specific image that is there and loads is drawn; when it
  is missing, empty or does not load, the main image is, if it is there and loads.\<close>

definition renderUserImage :: "(image_ref \<Rightarrow> bool) \<Rightarrow> Layer \<Rightarrow> nat \<Rightarrow> draw_op list" where
  "renderUserImage loadImage layer sz =
     (let sizeSpecificImageUrl =
            (case sizeSpecificImages layer of None \<Rightarrow> None | Some m \<Rightarrow> m sz);
          main =
            (case imageUrl layer of
               None \<Rightarrow> []
             | Some url \<Rightarrow>
                 if url = [] then []
                 else if loadImage (ImageUrl url) then draw_user_image layer (ImageUrl url) sz
                 else [])
      in case sizeSpecificImageUrl of
           None \<Rightarrow> main
         | Some url \<Rightarrow>
             if url = [] then main
             else if loadImage (ImageUrl url) then draw_user_image layer (ImageUrl url) sz
             else main)"

text \<open>\<open>render\<close>: the two folder images of the size are loaded first
  (\<open>Promise.all\<close>: both loads must succeed, a failed one rejects the whole render with
  \<open>ImageLoadError\<close>); then the layers by ascending order, a layer
  that is not visible at this size skipped.\<close>

definition CanvasRenderer_render ::
  "(image_ref \<Rightarrow> bool) \<Rightarrow> Layer list \<Rightarrow> nat \<Rightarrow> error + layer_pass list" where
  "CanvasRenderer_render loadImage layers sz =
     (let backAsset = getFolderAsset Back sz; frontAsset = getFolderAsset Front sz
      in if loadImage backAsset \<and> loadImage frontAsset
         then
           (let sortedLayers = sort_key layer_order layers
            in Inr (map (\<lambda>layer.
                      \<lparr> pass_layer = layer_id layer,
                        pass_alpha = opacity layer / 100,
                        pass_ops = (case layer_type layer of
                                      BackFolder \<Rightarrow> draw_folder layer backAsset sz
                                    | FrontFolder \<Rightarrow> draw_folder layer frontAsset sz
                                    | UserImage \<Rightarrow> renderUserImage loadImage layer sz) \<rparr>)
                    (filter (\<lambda>layer. isVisible layer sz) sortedLayers)))
         else Inl ImageLoadError)"

subsection \<open>Resolution of the per-size overrides, in the words of the spec\<close>

definition resolved_visible :: "Layer \<Rightarrow> nat \<Rightarrow> bool" where
  "resolved_visible layer sz =
     (case visibilityBySize layer of
        Some m \<Rightarrow> (case m sz of Some v \<Rightarrow> v | None \<Rightarrow> visible layer)
      | None \<Rightarrow> visible layer)"

text \<open>An override is used when it is present and not falsy: any position, a scale other
  than 0, an image source other than the empty string.\<close>

definition resolved_position :: "Layer \<Rightarrow> nat \<Rightarrow> position" where
  "resolved_position layer sz =
     (case positionBySize layer of
        Some m \<Rightarrow> (case m sz of Some p \<Rightarrow> p | None \<Rightarrow> position layer)
      | None \<Rightarrow> position layer)"

definition resolved_scale :: "Layer \<Rightarrow> nat \<Rightarrow> rat" where
  "resolved_scale layer sz =
     (case scaleBySize layer of
        Some m \<Rightarrow> (case m sz of Some c \<Rightarrow> if c = 0 then scale layer else c
                  | None \<Rightarrow> scale layer)
      | None \<Rightarrow> scale layer)"

definition nonempty_source :: "string option \<Rightarrow> string option" where
  "nonempty_source u = (case u of Some url \<Rightarrow> if url = [] then None else Some url | None \<Rightarrow> None)"

definition resolved_source :: "Layer \<Rightarrow> nat \<Rightarrow> string option" where
  "resolved_source layer sz =
     (case nonempty_source (case sizeSpecificImages layer of Some m \<Rightarrow> m sz | None \<Rightarrow> None) of
        Some url \<Rightarrow> Some url
      | None \<Rightarrow> nonempty_source (imageUrl layer))"

text \<open>Drawing an image into the square of side \<open>side\<close> with top-left corner
  \<open>(x0, y0)\<close>: \<open>drawImage\<close> with that rectangle, or, for a layer with \<open>useColor\<close> and a
  colour, \<open>applyColorToImage\<close> with that size at that corner.\<close>

definition place_image :: "Layer \<Rightarrow> image_ref \<Rightarrow> rat \<Rightarrow> rat \<Rightarrow> rat \<Rightarrow> draw_op" where
  "place_image layer img x0 y0 side =
     (case color layer of
        Some c \<Rightarrow>
          (if useColor layer then DrawTinted img (fill_of c side) side x0 y0
           else DrawImage img x0 y0 side side)
      | None \<Rightarrow> DrawImage img x0 y0 side side)"

section \<open>The browser's copy of the reader (client/src/lib/ico-processor.ts)\<close>

text \<open>
  \<open>ClientIcoProcessor.parseIcoFile\<close> reads the header and the directory with the same
  statements as \<open>IcoParser.parse\<close> (\<open>DataView\<close> getters for the \<open>Buffer\<close> ones,
  \<open>arrayBuffer.slice\<close> for \<open>subarray\<close>), so \<open>parse\<close> stands for them. The second copy of
  the class first validates the file: its name must end in \<open>.ico\<close>, whatever the case,
  and it must have at least 22 bytes. A \<open>File\<close> is its name and its bytes;
  \<open>toLowerCase\<close> is modelled on ASCII letters.
\<close>

record File =
  file_name :: string
  file_bytes :: "byte list"

definition toLowerCase :: "string \<Rightarrow> string" where
  "toLowerCase s =
     map (\<lambda>c. case map_of (zip ''ABCDEFGHIJKLMNOPQRSTUVWXYZ'' ''abcdefghijklmnopqrstuvwxyz'') c of
                Some l \<Rightarrow> l
              | None \<Rightarrow> c) s"

definition endsWith :: "string \<Rightarrow> string \<Rightarrow> bool" where
  "endsWith s suffix \<longleftrightarrow>
     length suffix \<le> length s \<and> drop (length s - length suffix) s = suffix"

definition validateIcoFile :: "File \<Rightarrow> bool" where
  "validateIcoFile file =
     (if \<not> endsWith (toLowerCase (file_name file)) ''.ico'' then False
      else if length (file_bytes file) < 22 then False
      else True)"

text \<open>The \<open>images\<close> array of \<open>parseIcoFile\<close> (second copy) after its directory loop.\<close>

definition parseIcoFile_images :: "File \<Rightarrow> error + IcoImage list" where
  "parseIcoFile_images file =
     (if \<not> validateIcoFile file then Inl InvalidFile else parse (file_bytes file))"

section \<open>Properties of the reader and of the best-match selection\<close>

lemma and_then_Inr [simp]: "and_then (Inr v) f = f v"
  by (simp add: and_then_def)

lemma and_then_Inl [simp]: "and_then (Inl e) f = Inl e"
  by (simp add: and_then_def)

lemma foldl_pick_mem:
  assumes "\<And>a b. f a b = a \<or> f a b = b"
  shows "foldl f x xs \<in> set (x # xs)"
proof (induction xs arbitrary: x)
  case Nil
  show ?case by simp
next
  case (Cons y ys)
  have "foldl f (f x y) ys \<in> set (f x y # ys)" by (rule Cons.IH)
  moreover have "f x y = x \<or> f x y = y" by (rule assms)
  ultimately show ?case by auto
qed

lemma reduce_pick:
  assumes "\<And>a b. f a b = a \<or> f a b = b" and "xs \<noteq> []"
  shows "\<exists>r \<in> set xs. reduce f xs = Inr r"
proof (cases xs)
  case Nil
  with assms(2) show ?thesis by simp
next
  case (Cons y ys)
  have "foldl f y ys \<in> set (y # ys)" using assms(1) by (rule foldl_pick_mem)
  with Cons show ?thesis by simp
qed

lemma find_Some_mem: "find P xs = Some x \<Longrightarrow> x \<in> set xs \<and> P x"
  by (induction xs) (auto split: if_splits)

lemma getBestMatch_empty: "getBestMatch [] t = Inr None"
  by (simp add: getBestMatch_def)

lemma getBestMatch_nonempty:
  assumes "images \<noteq> []"
  shows "\<exists>img \<in> set images. getBestMatch images t = Inr (Some img)"
proof (cases "find (\<lambda>img. width img = t \<and> height img = t) images")
  case (Some e)
  then have "e \<in> set images" by (auto dest: find_Some_mem)
  with Some assms show ?thesis by (simp add: getBestMatch_def)
next
  case None
  let ?L = "filter (\<lambda>img. width img \<ge> t \<and> height img \<ge> t) images"
  let ?f = "\<lambda>best current. if width current * height current < width best * height best
                          then current else (best::IcoImage)"
  let ?g = "\<lambda>best current. if width current * height current > width best * height best
                          then current else (best::IcoImage)"
  show ?thesis
  proof (cases "?L = []")
    case True
    have "\<exists>r \<in> set images. reduce ?g images = Inr r"
      by (rule reduce_pick) (use assms in auto)
    then obtain r where "r \<in> set images" "reduce ?g images = Inr r" by blast
    with None True assms show ?thesis by (auto simp: getBestMatch_def)
  next
    case False
    have "\<exists>r \<in> set ?L. reduce ?f ?L = Inr r"
      by (rule reduce_pick) (use False in auto)
    then obtain r where "r \<in> set ?L" "reduce ?f ?L = Inr r" by blast
    with None False assms show ?thesis by (auto simp: getBestMatch_def Let_def)
  qed
qed

lemma parse_entry_in_range:
  assumes "6 + i * 16 + 16 \<le> length buf"
  shows "parse_entry buf i =
           (if u32_at buf (6 + 16 * i + 12) + u32_at buf (6 + 16 * i + 8) > length buf
            then Inl ImageDataOutOfBounds
            else Inr \<lparr> width = (if unat (buf ! (6 + i * 16)) = 0 then 256
                                 else unat (buf ! (6 + i * 16))),
                        height = (if unat (buf ! (6 + i * 16 + 1)) = 0 then 256
                                  else unat (buf ! (6 + i * 16 + 1))),
                        buffer = subarray buf (u32_at buf (6 + 16 * i + 12))
                                   (u32_at buf (6 + 16 * i + 12) + u32_at buf (6 + 16 * i + 8)),
                        format = detect_format (subarray buf (u32_at buf (6 + 16 * i + 12))
                                   (u32_at buf (6 + 16 * i + 12) + u32_at buf (6 + 16 * i + 8))) \<rparr>)"
  using assms
  by (simp add: parse_entry_def readUInt8_def readUInt32LE_def u32_at_def Let_def
      mult.commute add.assoc)

lemma parse_entry_truncated:
  "6 + i * 16 + 16 > length buf \<Longrightarrow> parse_entry buf i = Inl TruncatedDirectoryEntry"
  by (simp add: parse_entry_def)

lemma parse_entry_fails_iff: "(\<exists>e. parse_entry buf i = Inl e) \<longleftrightarrow> entry_fails buf i"
proof (cases "6 + i * 16 + 16 > length buf")
  case True
  then show ?thesis by (simp add: parse_entry_truncated entry_fails_def mult.commute)
next
  case False
  then have "6 + i * 16 + 16 \<le> length buf" by simp
  from parse_entry_in_range [OF this] False show ?thesis
    by (simp add: entry_fails_def mult.commute)
qed

lemma parse_entry_error_kind:
  "parse_entry buf i = Inl e \<Longrightarrow> e = TruncatedDirectoryEntry \<or> e = ImageDataOutOfBounds"
proof (cases "6 + i * 16 + 16 > length buf")
  case True
  assume "parse_entry buf i = Inl e"
  with True show ?thesis by (simp add: parse_entry_truncated)
next
  case False
  assume e: "parse_entry buf i = Inl e"
  from False have "6 + i * 16 + 16 \<le> length buf" by simp
  from parse_entry_in_range [OF this] e show ?thesis
    by (simp split: if_splits)
qed

lemma parse_entries_fails_iff:
  "(\<exists>e. parse_entries buf n i imgs = Inl e) \<longleftrightarrow> (\<exists>j. i \<le> j \<and> j < n \<and> entry_fails buf j)"
proof (induction buf n i imgs rule: parse_entries.induct)
  case (1 buf n i imgs)
  show ?case
  proof (cases "i < n")
    case False
    then show ?thesis by (subst parse_entries.simps) auto
  next
    case True
    show ?thesis
    proof (cases "parse_entry buf i")
      case (Inl e)
      then have "entry_fails buf i" using parse_entry_fails_iff by blast
      with True Inl show ?thesis by (subst parse_entries.simps) auto
    next
      case (Inr img)
      then have nf: "\<not> entry_fails buf i" using parse_entry_fails_iff [of buf i] by simp
      have "(\<exists>e. parse_entries buf n (i + 1) (imgs @ [img]) = Inl e)
              \<longleftrightarrow> (\<exists>j. i + 1 \<le> j \<and> j < n \<and> entry_fails buf j)"
        using "1.IH" True Inr by simp
      moreover have "(\<exists>j. i + 1 \<le> j \<and> j < n \<and> entry_fails buf j)
              \<longleftrightarrow> (\<exists>j. i \<le> j \<and> j < n \<and> entry_fails buf j)"
        using nf by (metis Suc_eq_plus1 Suc_leI le_neq_implies_less Suc_leD)
      ultimately show ?thesis using True Inr by (subst parse_entries.simps) simp
    qed
  qed
qed

lemma parse_entries_error_kind:
  "parse_entries buf n i imgs = Inl e \<Longrightarrow>
     e = TruncatedDirectoryEntry \<or> e = ImageDataOutOfBounds"
proof (induction buf n i imgs rule: parse_entries.induct)
  case (1 buf n i imgs)
  from "1.prems" have lt: "i < n"
    by (subst (asm) parse_entries.simps) (simp split: if_splits)
  show ?case
  proof (cases "parse_entry buf i")
    case (Inl e')
    with lt "1.prems" have "e = e'" by (subst (asm) parse_entries.simps) simp
    with Inl show ?thesis using parse_entry_error_kind by blast
  next
    case (Inr img)
    with lt "1.prems" have "parse_entries buf n (i + 1) (imgs @ [img]) = Inl e"
      by (subst (asm) parse_entries.simps) simp
    with "1.IH" lt Inr show ?thesis by simp
  qed
qed

lemma parse_entries_length:
  "parse_entries buf n i imgs = Inr res \<Longrightarrow> length res = length imgs + (n - i)"
proof (induction buf n i imgs arbitrary: res rule: parse_entries.induct)
  case (1 buf n i imgs)
  show ?case
  proof (cases "i < n")
    case False
    with "1.prems" show ?thesis by (subst (asm) parse_entries.simps) auto
  next
    case True
    show ?thesis
    proof (cases "parse_entry buf i")
      case (Inl e')
      with True "1.prems" show ?thesis by (subst (asm) parse_entries.simps) simp
    next
      case (Inr img)
      with True "1.prems" have "parse_entries buf n (i + 1) (imgs @ [img]) = Inr res"
        by (subst (asm) parse_entries.simps) simp
      with "1.IH" True Inr have "length res = length (imgs @ [img]) + (n - (i + 1))"
        by simp
      with True show ?thesis by simp
    qed
  qed
qed

lemma parse_header_ok:
  assumes "6 \<le> length buf" "u16_at buf 0 = 0" "u16_at buf 2 = 1"
    "declared_count buf \<noteq> 0" "declared_count buf \<le> 255"
  shows "parse buf = parse_entries buf (declared_count buf) 0 []"
  using assms
  by (simp add: parse_def readUInt16LE_def u16_at_def declared_count_def)

lemma parse_header_bad:
  assumes "length buf < 6 \<or> u16_at buf 0 \<noteq> 0 \<or> u16_at buf 2 \<noteq> 1
     \<or> declared_count buf = 0 \<or> declared_count buf > 255"
  shows "\<exists>e. parse buf = Inl e \<and> (e = TooSmall \<or> e = IncorrectHeader \<or> e = InvalidImageCount)"
proof (cases "length buf < 6")
  case True
  then show ?thesis by (simp add: parse_def)
next
  case False
  with assms show ?thesis
    by (auto simp add: parse_def readUInt16LE_def u16_at_def declared_count_def)
qed

lemma parse_fails_iff: "(\<exists>e. parse buf = Inl e) \<longleftrightarrow> spec_format_error buf"
proof (cases "length buf < 6 \<or> u16_at buf 0 \<noteq> 0 \<or> u16_at buf 2 \<noteq> 1
     \<or> declared_count buf = 0 \<or> declared_count buf > 255")
  case True
  from parse_header_bad [OF True] have "\<exists>e. parse buf = Inl e" by blast
  moreover from True have "spec_format_error buf" by (auto simp: spec_format_error_def)
  ultimately show ?thesis by simp
next
  case False
  then have p: "parse buf = parse_entries buf (declared_count buf) 0 []"
    by (intro parse_header_ok) auto
  have "(\<exists>j. 0 \<le> j \<and> j < declared_count buf \<and> entry_fails buf j) \<longleftrightarrow> spec_format_error buf"
    using False by (auto simp: spec_format_error_def entry_fails_def)
  with p parse_entries_fails_iff [of buf "declared_count buf" 0 "[]"] show ?thesis by simp
qed

lemma parse_error_is_FormatError: "parse buf = Inl e \<Longrightarrow> is_FormatError e"
proof (cases "length buf < 6 \<or> u16_at buf 0 \<noteq> 0 \<or> u16_at buf 2 \<noteq> 1
     \<or> declared_count buf = 0 \<or> declared_count buf > 255")
  case True
  assume "parse buf = Inl e"
  with parse_header_bad [OF True] show ?thesis by (auto simp: is_FormatError_def)
next
  case False
  assume e: "parse buf = Inl e"
  from False have "parse buf = parse_entries buf (declared_count buf) 0 []"
    by (intro parse_header_ok) auto
  with e parse_entries_error_kind show ?thesis by (fastforce simp: is_FormatError_def)
qed

lemma parse_count:
  assumes "parse buf = Inr imgs"
  shows "length imgs = declared_count buf \<and> 1 \<le> declared_count buf \<and> declared_count buf \<le> 255"
proof -
  have nb: "\<not> (length buf < 6 \<or> u16_at buf 0 \<noteq> 0 \<or> u16_at buf 2 \<noteq> 1
     \<or> declared_count buf = 0 \<or> declared_count buf > 255)"
  proof
    assume b: "length buf < 6 \<or> u16_at buf 0 \<noteq> 0 \<or> u16_at buf 2 \<noteq> 1
     \<or> declared_count buf = 0 \<or> declared_count buf > 255"
    from parse_header_bad [OF b] assms show False by auto
  qed
  then have "parse buf = parse_entries buf (declared_count buf) 0 []"
    by (intro parse_header_ok) auto
  with assms parse_entries_length [of buf "declared_count buf" 0 "[]" imgs] nb
  show ?thesis by auto
qed

lemma foldl_min_pick:
  fixes m :: "'a \<Rightarrow> nat"
  shows "foldl (\<lambda>best current. if m current < m best then current else best) x xs \<in> set (x # xs)
       \<and> (\<forall>y \<in> set (x # xs).
             m (foldl (\<lambda>best current. if m current < m best then current else best) x xs) \<le> m y)"
proof (induction xs arbitrary: x)
  case Nil
  show ?case by simp
next
  case (Cons z zs)
  let ?f = "\<lambda>best current. if m current < m best then current else best"
  from Cons.IH [of "?f x z"]
  have mem: "foldl ?f (?f x z) zs \<in> set (?f x z # zs)"
    and le: "\<forall>y \<in> set (?f x z # zs). m (foldl ?f (?f x z) zs) \<le> m y" by blast+
  from le have "m (foldl ?f (?f x z) zs) \<le> m (?f x z)" by simp
  moreover have "m (?f x z) \<le> m x" "m (?f x z) \<le> m z" by auto
  ultimately have "m (foldl ?f (?f x z) zs) \<le> m x" "m (foldl ?f (?f x z) zs) \<le> m z"
    by linarith+
  with mem le show ?case by auto
qed

lemma foldl_max_pick:
  fixes m :: "'a \<Rightarrow> nat"
  shows "foldl (\<lambda>best current. if m current > m best then current else best) x xs \<in> set (x # xs)
       \<and> (\<forall>y \<in> set (x # xs).
             m y \<le> m (foldl (\<lambda>best current. if m current > m best then current else best) x xs))"
proof (induction xs arbitrary: x)
  case Nil
  show ?case by simp
next
  case (Cons z zs)
  let ?f = "\<lambda>best current. if m current > m best then current else best"
  from Cons.IH [of "?f x z"]
  have mem: "foldl ?f (?f x z) zs \<in> set (?f x z # zs)"
    and le: "\<forall>y \<in> set (?f x z # zs). m y \<le> m (foldl ?f (?f x z) zs)" by blast+
  from le have "m (?f x z) \<le> m (foldl ?f (?f x z) zs)" by simp
  moreover have "m x \<le> m (?f x z)" "m z \<le> m (?f x z)" by auto
  ultimately have "m x \<le> m (foldl ?f (?f x z) zs)" "m z \<le> m (foldl ?f (?f x z) zs)"
    by linarith+
  with mem le show ?case by auto
qed

lemma reduce_min:
  fixes m :: "'a \<Rightarrow> nat"
  assumes "xs \<noteq> []"
  shows "\<exists>r \<in> set xs. reduce (\<lambda>best current. if m current < m best then current else best) xs = Inr r
           \<and> (\<forall>y \<in> set xs. m r \<le> m y)"
proof (cases xs)
  case Nil
  with assms show ?thesis by simp
next
  case (Cons x ys)
  with foldl_min_pick [of m x ys] show ?thesis by simp
qed

lemma reduce_max:
  fixes m :: "'a \<Rightarrow> nat"
  assumes "xs \<noteq> []"
  shows "\<exists>r \<in> set xs. reduce (\<lambda>best current. if m current > m best then current else best) xs = Inr r
           \<and> (\<forall>y \<in> set xs. m y \<le> m r)"
proof (cases xs)
  case Nil
  with assms show ?thesis by simp
next
  case (Cons x ys)
  with foldl_max_pick [of m x ys] show ?thesis by simp
qed

lemma find_None_iff': "find P xs = None \<longleftrightarrow> (\<forall>x \<in> set xs. \<not> P x)"
  by (induction xs) auto

lemma getBestMatch_exact:
  assumes "find (\<lambda>img. width img = t \<and> height img = t) images = Some e"
  shows "getBestMatch images t = Inr (Some e)"
proof -
  from assms have "images \<noteq> []" by auto
  with assms show ?thesis by (simp add: getBestMatch_def)
qed

lemma getBestMatch_larger:
  assumes "find (\<lambda>img. width img = t \<and> height img = t) images = None"
    and "filter (\<lambda>img. width img \<ge> t \<and> height img \<ge> t) images \<noteq> []"
  shows "getBestMatch images t =
           and_then (reduce (\<lambda>best current.
                       if pixel_area current < pixel_area best then current else best)
                       (filter (\<lambda>img. width img \<ge> t \<and> height img \<ge> t) images))
                    (\<lambda>r. Inr (Some r))"
proof -
  from assms(2) have "images \<noteq> []" by auto
  with assms show ?thesis by (simp add: getBestMatch_def pixel_area_def)
qed

lemma getBestMatch_largest:
  assumes "find (\<lambda>img. width img = t \<and> height img = t) images = None"
    and "filter (\<lambda>img. width img \<ge> t \<and> height img \<ge> t) images = []"
    and "images \<noteq> []"
  shows "getBestMatch images t =
           and_then (reduce (\<lambda>best current.
                       if pixel_area current > pixel_area best then current else best) images)
                    (\<lambda>r. Inr (Some r))"
  using assms by (simp add: getBestMatch_def pixel_area_def)

text \<open>On square images the two measures order the images alike.\<close>

lemma nat_square_less_iff: "(p::nat) * p < q * q \<longleftrightarrow> p < q"
proof
  assume "p * p < q * q"
  show "p < q"
  proof (rule ccontr)
    assume "\<not> p < q"
    then have "q \<le> p" by simp
    then have "q * q \<le> p * p" by (simp add: mult_le_mono)
    with \<open>p * p < q * q\<close> show False by simp
  qed
next
  assume "p < q"
  then show "p * p < q * q" by (simp add: mult_strict_mono)
qed

lemma square_max_lt:
  assumes "width a = height a" "width b = height b"
  shows "max (width a) (height a) < max (width b) (height b)
          \<longleftrightarrow> width a * height a < width b * height b"
  using assms by (simp add: nat_square_less_iff)

lemma square_max_ge:
  assumes "width a = height a"
  shows "t \<le> max (width a) (height a) \<longleftrightarrow> t \<le> width a \<and> t \<le> height a"
  using assms by simp

lemma foldl_cong_set:
  assumes "\<And>a b. a \<in> S \<Longrightarrow> b \<in> S \<Longrightarrow> f a b = g a b"
    and "\<And>a b. a \<in> S \<Longrightarrow> b \<in> S \<Longrightarrow> f a b \<in> S"
    and "x \<in> S" "set xs \<subseteq> S"
  shows "foldl f x xs = foldl g x xs"
  using assms(3,4)
proof (induction xs arbitrary: x)
  case Nil
  show ?case by simp
next
  case (Cons y ys)
  then have "y \<in> S" "set ys \<subseteq> S" by auto
  with Cons.prems have eq: "f x y = g x y" and mem: "f x y \<in> S" using assms(1,2) by auto
  from Cons.IH [OF mem \<open>set ys \<subseteq> S\<close>] eq show ?case by simp
qed

lemma reduce_cong_set:
  assumes "\<And>a b. a \<in> S \<Longrightarrow> b \<in> S \<Longrightarrow> f a b = g a b"
    and "\<And>a b. a \<in> S \<Longrightarrow> b \<in> S \<Longrightarrow> f a b \<in> S"
    and "set xs \<subseteq> S"
  shows "reduce f xs = reduce g xs"
proof (cases xs)
  case Nil
  then show ?thesis by simp
next
  case (Cons y ys)
  with assms(3) have "y \<in> S" "set ys \<subseteq> S" by auto
  with foldl_cong_set [of S f g y ys] assms(1,2) Cons show ?thesis by simp
qed

lemma IcoParser_getBestMatch_square:
  assumes sq: "\<forall>img \<in> set images. width img = height img"
  shows "IcoParser_getBestMatch images t = getBestMatch images t"
proof -
  let ?S = "{img. width img = height img}"
  let ?L1 = "filter (\<lambda>img. max (width img) (height img) \<ge> t) images"
  let ?L2 = "filter (\<lambda>img. width img \<ge> t \<and> height img \<ge> t) images"
  have L: "?L1 = ?L2"
    by (rule filter_cong) (use sq in \<open>auto simp: square_max_ge\<close>)
  have sub: "set images \<subseteq> ?S" "set ?L2 \<subseteq> ?S" using sq by auto
  have r1: "reduce (\<lambda>closest current.
                if max (width current) (height current) < max (width closest) (height closest)
                then current else closest) ?L2
          = reduce (\<lambda>best current.
                if width current * height current < width best * height best
                then current else best) ?L2"
    by (rule reduce_cong_set [where S = ?S]) (use sub in \<open>auto simp: Let_def nat_square_less_iff\<close>)
  have r2: "reduce (\<lambda>largest current.
                if max (width current) (height current) > max (width largest) (height largest)
                then current else largest) images
          = reduce (\<lambda>best current.
                if width current * height current > width best * height best
                then current else best) images"
    by (rule reduce_cong_set [where S = ?S]) (use sub in \<open>auto simp: Let_def nat_square_less_iff\<close>)
  show ?thesis
    by (simp only: IcoParser_getBestMatch_def getBestMatch_def Let_def L r1 r2)
qed

lemma IcoParser_getBestMatch_empty: "IcoParser_getBestMatch [] t = Inr None"
  by (simp add: IcoParser_getBestMatch_def)

lemma IcoParser_getBestMatch_nonempty:
  assumes "images \<noteq> []"
  shows "\<exists>img \<in> set images. IcoParser_getBestMatch images t = Inr (Some img)"
proof (cases "find (\<lambda>img. width img = t \<and> height img = t) images")
  case (Some e)
  then have "e \<in> set images" by (auto dest: find_Some_mem)
  with Some assms show ?thesis by (simp add: IcoParser_getBestMatch_def)
next
  case None
  let ?L = "filter (\<lambda>img. max (width img) (height img) \<ge> t) images"
  let ?f = "\<lambda>closest current.
              if max (width current) (height current) < max (width closest) (height closest)
              then current else (closest::IcoImage)"
  let ?g = "\<lambda>largest current.
              if max (width current) (height current) > max (width largest) (height largest)
              then current else (largest::IcoImage)"
  show ?thesis
  proof (cases "?L = []")
    case True
    have "\<exists>r \<in> set images. reduce ?g images = Inr r"
      by (rule reduce_pick) (use assms in auto)
    then obtain r where "r \<in> set images" "reduce ?g images = Inr r" by blast
    with None True assms show ?thesis by (auto simp: IcoParser_getBestMatch_def Let_def)
  next
    case False
    have "\<exists>r \<in> set ?L. reduce ?f ?L = Inr r"
      by (rule reduce_pick) (use False in auto)
    then obtain r where "r \<in> set ?L" "reduce ?f ?L = Inr r" by blast
    with None False assms show ?thesis by (auto simp: IcoParser_getBestMatch_def Let_def)
  qed
qed

lemma short_file_format_error:
  assumes "length buf < 22"
  shows "spec_format_error buf"
proof (cases "length buf < 6 \<or> u16_at buf 0 \<noteq> 0 \<or> u16_at buf 2 \<noteq> 1
     \<or> declared_count buf = 0 \<or> declared_count buf > 255")
  case True
  then show ?thesis by (auto simp: spec_format_error_def)
next
  case False
  then have "0 \<in> {0..<declared_count buf}" by simp
  moreover have "6 + 16 * 0 + 16 > length buf" using assms by simp
  ultimately have "\<exists>i \<in> {0..<declared_count buf}. 6 + 16 * i + 16 > length buf" by blast
  then show ?thesis by (simp add: spec_format_error_def)
qed

lemma parseIcoFile_images_fails_iff:
  assumes "endsWith (toLowerCase (file_name file)) ''.ico''"
  shows "(\<exists>e. parseIcoFile_images file = Inl e) \<longleftrightarrow> spec_format_error (file_bytes file)"
proof (cases "length (file_bytes file) < 22")
  case True
  then have "parseIcoFile_images file = Inl InvalidFile"
    by (simp add: parseIcoFile_images_def validateIcoFile_def)
  with short_file_format_error [OF True] show ?thesis by simp
next
  case False
  with assms have "parseIcoFile_images file = parse (file_bytes file)"
    by (simp add: parseIcoFile_images_def validateIcoFile_def)
  then show ?thesis by (simp add: parse_fails_iff)
qed

text \<open>
  Claim C3. \<open>parse\<close> raises an error exactly when one of the five conditions of the
  spec holds (buffer shorter than 6 bytes; reserved field not 0 or type field not 1; declared
  count 0 or above 255; a directory entry past the end of the buffer; an entry whose
  \<open>imageOffset + imageSize\<close> exceeds the buffer length). Every error it raises is one of
  the reader's own format errors, never a \<open>RangeError\<close> of an unguarded read. When none
  of the conditions holds it returns exactly \<open>count\<close> image descriptors. The browser's
  copy, which first refuses a file shorter than 22 bytes, fails on the same buffers, for a
  file whose name ends in \<open>.ico\<close>.
\<close>

theorem parse_fails_exactly:
  "((\<exists>e. parse buf = Inl e) \<longleftrightarrow> spec_format_error buf)
   \<and> (\<forall>e. parse buf = Inl e \<longrightarrow> is_FormatError e)
   \<and> (\<not> spec_format_error buf \<longrightarrow>
        (\<exists>imgs. parse buf = Inr imgs \<and> length imgs = declared_count buf))
   \<and> (endsWith (toLowerCase (file_name file)) ''.ico'' \<longrightarrow>
        ((\<exists>e. parseIcoFile_images file = Inl e) \<longleftrightarrow> spec_format_error (file_bytes file)))"
proof (intro conjI allI impI)
  show "(\<exists>e. parse buf = Inl e) \<longleftrightarrow> spec_format_error buf" by (rule parse_fails_iff)
next
  fix e assume "parse buf = Inl e"
  then show "is_FormatError e" by (rule parse_error_is_FormatError)
next
  assume "\<not> spec_format_error buf"
  then have "\<not> (\<exists>e. parse buf = Inl e)" by (simp add: parse_fails_iff)
  then obtain imgs where imgs: "parse buf = Inr imgs" by (cases "parse buf") auto
  with parse_count [OF imgs] show "\<exists>imgs. parse buf = Inr imgs \<and> length imgs = declared_count buf"
    by simp
next
  assume "endsWith (toLowerCase (file_name file)) ''.ico''"
  then show "(\<exists>e. parseIcoFile_images file = Inl e) \<longleftrightarrow> spec_format_error (file_bytes file)"
    by (rule parseIcoFile_images_fails_iff)
qed

text \<open>
  A well-formed one-image file is parsed, by the server's reader and, under the name
  \<open>Icon.ICO\<close>, by the browser's; the same file with an image size one byte too large is
  refused.
\<close>

theorem parse_fails_exactly_witness:
  "\<not> spec_format_error
       [0, 0, 1, 0, 1, 0,  16, 16, 0, 0, 1, 0, 32, 0, 2, 0, 0, 0, 22, 0, 0, 0,  0xAA, 0xBB]
   \<and> (\<exists>imgs. parse
       [0, 0, 1, 0, 1, 0,  16, 16, 0, 0, 1, 0, 32, 0, 2, 0, 0, 0, 22, 0, 0, 0,  0xAA, 0xBB]
         = Inr imgs \<and> length imgs = 1)
   \<and> (\<exists>imgs. parseIcoFile_images
       \<lparr> file_name = ''Icon.ICO'', file_bytes =
         [0, 0, 1, 0, 1, 0,  16, 16, 0, 0, 1, 0, 32, 0, 2, 0, 0, 0, 22, 0, 0, 0,  0xAA, 0xBB] \<rparr>
         = Inr imgs)
   \<and> spec_format_error
       [0, 0, 1, 0, 1, 0,  16, 16, 0, 0, 1, 0, 32, 0, 3, 0, 0, 0, 22, 0, 0, 0,  0xAA, 0xBB]
   \<and> (\<exists>e. parse
       [0, 0, 1, 0, 1, 0,  16, 16, 0, 0, 1, 0, 32, 0, 3, 0, 0, 0, 22, 0, 0, 0,  0xAA, 0xBB]
         = Inl e \<and> is_FormatError e)"
proof -
  let ?good = "[0, 0, 1, 0, 1, 0,  16, 16, 0, 0, 1, 0, 32, 0, 2, 0, 0, 0, 22, 0, 0, 0,
                0xAA, 0xBB] :: byte list"
  let ?bad = "[0, 0, 1, 0, 1, 0,  16, 16, 0, 0, 1, 0, 32, 0, 3, 0, 0, 0, 22, 0, 0, 0,
                0xAA, 0xBB] :: byte list"
  let ?file = "\<lparr> file_name = ''Icon.ICO'', file_bytes = ?good \<rparr>"
  have c: "declared_count ?good = 1" "declared_count ?bad = 1"
    by (simp_all add: declared_count_def u16_at_def)
  have g: "\<not> spec_format_error ?good"
    by (simp add: spec_format_error_def c) (simp add: u16_at_def u32_at_def)
  have b: "spec_format_error ?bad"
    by (simp add: spec_format_error_def c) (simp add: u16_at_def u32_at_def)
  have nm: "endsWith (toLowerCase (file_name ?file)) ''.ico''"
    by (simp add: endsWith_def toLowerCase_def)
  from parse_fails_exactly [of ?good ?file] g c
  have 1: "\<exists>imgs. parse ?good = Inr imgs \<and> length imgs = 1" by simp
  from parse_fails_exactly [of ?good ?file] nm g
  have "\<not> (\<exists>e. parseIcoFile_images ?file = Inl e)" by simp
  then have 2: "\<exists>imgs. parseIcoFile_images ?file = Inr imgs"
    by (cases "parseIcoFile_images ?file") auto
  from parse_fails_exactly [of ?bad ?file] b
  have 3: "\<exists>e. parse ?bad = Inl e \<and> is_FormatError e" by blast
  from g 1 2 b 3 show ?thesis by blast
qed

text \<open>
  Claim C10. \<open>getBestMatch\<close> (the browser's and the server's) returns \<open>null\<close> exactly
  for the empty list; for a non-empty list and any target size it returns an element of the
  list. A successful parse yields at least one image, so each of the seven canonical target
  sizes is then given an image of the parsed list.
\<close>

theorem getBestMatch_null_iff_empty:
  "(getBestMatch images t = Inr None \<longleftrightarrow> images = [])
   \<and> (IcoParser_getBestMatch images t = Inr None \<longleftrightarrow> images = [])
   \<and> (images \<noteq> [] \<longrightarrow>
        (\<exists>img \<in> set images. getBestMatch images t = Inr (Some img))
        \<and> (\<exists>img \<in> set images. IcoParser_getBestMatch images t = Inr (Some img)))
   \<and> (parse buf = Inr images \<longrightarrow>
        (\<forall>targetSize \<in> set ICON_SIZES.
           (\<exists>img \<in> set images. getBestMatch images targetSize = Inr (Some img))
           \<and> (\<exists>img \<in> set images. IcoParser_getBestMatch images targetSize = Inr (Some img))))"
proof (intro conjI impI ballI)
  show "getBestMatch images t = Inr None \<longleftrightarrow> images = []"
    using getBestMatch_nonempty [of images t] getBestMatch_empty [of t]
    by (cases "images = []") auto
  show "IcoParser_getBestMatch images t = Inr None \<longleftrightarrow> images = []"
    using IcoParser_getBestMatch_nonempty [of images t] IcoParser_getBestMatch_empty [of t]
    by (cases "images = []") auto
next
  assume "images \<noteq> []"
  then show "\<exists>img \<in> set images. getBestMatch images t = Inr (Some img)"
    by (rule getBestMatch_nonempty)
next
  assume "images \<noteq> []"
  then show "\<exists>img \<in> set images. IcoParser_getBestMatch images t = Inr (Some img)"
    by (rule IcoParser_getBestMatch_nonempty)
next
  fix targetSize
  assume "parse buf = Inr images"
  from parse_count [OF this] have "images \<noteq> []" by auto
  then show "\<exists>img \<in> set images. getBestMatch images targetSize = Inr (Some img)"
    by (rule getBestMatch_nonempty)
next
  fix targetSize
  assume "parse buf = Inr images"
  from parse_count [OF this] have "images \<noteq> []" by auto
  then show "\<exists>img \<in> set images. IcoParser_getBestMatch images targetSize = Inr (Some img)"
    by (rule IcoParser_getBestMatch_nonempty)
qed

lemma parse_good_example:
  "parse [0, 0, 1, 0, 1, 0,  16, 16, 0, 0, 1, 0, 32, 0, 2, 0, 0, 0, 22, 0, 0, 0,  0xAA, 0xBB]
     = Inr [\<lparr>width = 16, height = 16, buffer = [0xAA, 0xBB], format = Bmp\<rparr>]"
  by (simp add: parse_def readUInt16LE_def parse_entries.simps parse_entry_def readUInt8_def
      readUInt32LE_def subarray_def detect_format_def Let_def)

text \<open>
  The one-image file above: its image is the best match at target size 256.
\<close>

theorem getBestMatch_null_iff_empty_witness:
  "parse [0, 0, 1, 0, 1, 0,  16, 16, 0, 0, 1, 0, 32, 0, 2, 0, 0, 0, 22, 0, 0, 0,  0xAA, 0xBB]
     = Inr [\<lparr>width = 16, height = 16, buffer = [0xAA, 0xBB], format = Bmp\<rparr>]
   \<and> getBestMatch [\<lparr>width = 16, height = 16, buffer = [0xAA, 0xBB], format = Bmp\<rparr>] 256
         = Inr (Some \<lparr>width = 16, height = 16, buffer = [0xAA, 0xBB], format = Bmp\<rparr>)
   \<and> IcoParser_getBestMatch
         [\<lparr>width = 16, height = 16, buffer = [0xAA, 0xBB], format = Bmp\<rparr>] 256
         = Inr (Some \<lparr>width = 16, height = 16, buffer = [0xAA, 0xBB], format = Bmp\<rparr>)
   \<and> getBestMatch [] 16 = Inr None \<and> IcoParser_getBestMatch [] 16 = Inr None"
  using getBestMatch_null_iff_empty
    [of "[\<lparr>width = 16, height = 16, buffer = [0xAA, 0xBB], format = Bmp\<rparr>]" 256
        "[0, 0, 1, 0, 1, 0,  16, 16, 0, 0, 1, 0, 32, 0, 2, 0, 0, 0, 22, 0, 0, 0,  0xAA, 0xBB]"]
    getBestMatch_null_iff_empty [of "[]" 16 "[]"]
    parse_good_example
  by (simp add: ICON_SIZES_def)

text \<open>
  Claim C4, as amended. The browser's \<open>getBestMatch\<close> follows the three rules: the
  (first) image with \<open>width = height = targetSize\<close> when there is one; otherwise, among
  the images with \<open>width \<ge> targetSize\<close> and \<open>height \<ge> targetSize\<close>, one of least pixel
  area; otherwise an image of greatest pixel area. The server's \<open>IcoParser.getBestMatch\<close>
  measures by \<open>max width height\<close> instead; it selects the same image whenever all images
  are square.
\<close>

theorem getBestMatch_order:
  "(\<forall>e. find (\<lambda>img. width img = t \<and> height img = t) images = Some e \<longrightarrow>
        getBestMatch images t = Inr (Some e) \<and> e \<in> set images \<and> width e = t \<and> height e = t)
   \<and> ((\<forall>img \<in> set images. \<not> (width img = t \<and> height img = t))
        \<and> (\<exists>img \<in> set images. width img \<ge> t \<and> height img \<ge> t) \<longrightarrow>
        (\<exists>r \<in> set images. getBestMatch images t = Inr (Some r)
           \<and> width r \<ge> t \<and> height r \<ge> t
           \<and> (\<forall>c \<in> set images. width c \<ge> t \<and> height c \<ge> t \<longrightarrow> pixel_area r \<le> pixel_area c)))
   \<and> (images \<noteq> [] \<and> (\<forall>img \<in> set images. \<not> (width img \<ge> t \<and> height img \<ge> t)) \<longrightarrow>
        (\<exists>r \<in> set images. getBestMatch images t = Inr (Some r)
           \<and> (\<forall>c \<in> set images. pixel_area c \<le> pixel_area r)))
   \<and> ((\<forall>img \<in> set images. width img = height img) \<longrightarrow>
        IcoParser_getBestMatch images t = getBestMatch images t)"
proof (intro conjI allI impI)
  fix e assume f: "find (\<lambda>img. width img = t \<and> height img = t) images = Some e"
  from getBestMatch_exact [OF f] show "getBestMatch images t = Inr (Some e)" .
  from find_Some_mem [OF f] show "e \<in> set images" "width e = t" "height e = t" by simp_all
next
  assume a: "(\<forall>img \<in> set images. \<not> (width img = t \<and> height img = t))
        \<and> (\<exists>img \<in> set images. width img \<ge> t \<and> height img \<ge> t)"
  let ?L = "filter (\<lambda>img. width img \<ge> t \<and> height img \<ge> t) images"
  from a have none: "find (\<lambda>img. width img = t \<and> height img = t) images = None"
    by (simp add: find_None_iff')
  from a have ne: "?L \<noteq> []" by (auto simp: filter_empty_conv)
  from reduce_min [OF ne, of pixel_area] obtain r where
    r: "r \<in> set ?L"
      "reduce (\<lambda>best current. if pixel_area current < pixel_area best then current else best) ?L
         = Inr r"
      "\<forall>y \<in> set ?L. pixel_area r \<le> pixel_area y" by blast
  from getBestMatch_larger [OF none ne] r(2) have "getBestMatch images t = Inr (Some r)"
    by simp
  with r(1,3) show "\<exists>r \<in> set images. getBestMatch images t = Inr (Some r)
           \<and> width r \<ge> t \<and> height r \<ge> t
           \<and> (\<forall>c \<in> set images. width c \<ge> t \<and> height c \<ge> t \<longrightarrow> pixel_area r \<le> pixel_area c)"
    by auto
next
  assume a: "images \<noteq> [] \<and> (\<forall>img \<in> set images. \<not> (width img \<ge> t \<and> height img \<ge> t))"
  then have none: "find (\<lambda>img. width img = t \<and> height img = t) images = None"
    by (auto simp: find_None_iff')
  from a have e: "filter (\<lambda>img. width img \<ge> t \<and> height img \<ge> t) images = []"
    by (auto simp: filter_empty_conv)
  from a have ne: "images \<noteq> []" by simp
  from reduce_max [OF ne, of pixel_area] obtain r where
    r: "r \<in> set images"
      "reduce (\<lambda>best current. if pixel_area current > pixel_area best then current else best)
         images = Inr r"
      "\<forall>y \<in> set images. pixel_area y \<le> pixel_area r" by blast
  from getBestMatch_largest [OF none e ne] r(2) have "getBestMatch images t = Inr (Some r)"
    by simp
  with r(1,3) show "\<exists>r \<in> set images. getBestMatch images t = Inr (Some r)
           \<and> (\<forall>c \<in> set images. pixel_area c \<le> pixel_area r)"
    by auto
next
  assume "\<forall>img \<in> set images. width img = height img"
  then show "IcoParser_getBestMatch images t = getBestMatch images t"
    by (rule IcoParser_getBestMatch_square)
qed

text \<open>
  Three square images, 16, 48 and 32 pixels wide: target 32 has an exact match, target 20
  takes the 32-pixel image (the smallest that is large enough), target 64 the 48-pixel image
  (the largest there is).
\<close>

theorem getBestMatch_order_witness:
  "getBestMatch [\<lparr>width = 16, height = 16, buffer = [], format = Png\<rparr>,
                 \<lparr>width = 48, height = 48, buffer = [], format = Png\<rparr>,
                 \<lparr>width = 32, height = 32, buffer = [], format = Png\<rparr>] 32
     = Inr (Some \<lparr>width = 32, height = 32, buffer = [], format = Png\<rparr>)
   \<and> getBestMatch [\<lparr>width = 16, height = 16, buffer = [], format = Png\<rparr>,
                 \<lparr>width = 48, height = 48, buffer = [], format = Png\<rparr>,
                 \<lparr>width = 32, height = 32, buffer = [], format = Png\<rparr>] 20
     = Inr (Some \<lparr>width = 32, height = 32, buffer = [], format = Png\<rparr>)
   \<and> getBestMatch [\<lparr>width = 16, height = 16, buffer = [], format = Png\<rparr>,
                 \<lparr>width = 48, height = 48, buffer = [], format = Png\<rparr>,
                 \<lparr>width = 32, height = 32, buffer = [], format = Png\<rparr>] 64
     = Inr (Some \<lparr>width = 48, height = 48, buffer = [], format = Png\<rparr>)
   \<and> IcoParser_getBestMatch [\<lparr>width = 16, height = 16, buffer = [], format = Png\<rparr>,
                 \<lparr>width = 48, height = 48, buffer = [], format = Png\<rparr>,
                 \<lparr>width = 32, height = 32, buffer = [], format = Png\<rparr>] 20
     = Inr (Some \<lparr>width = 32, height = 32, buffer = [], format = Png\<rparr>)"
proof -
  define a where "a = \<lparr>width = 16, height = 16, buffer = [], format = Png\<rparr>"
  define b where "b = \<lparr>width = 48, height = 48, buffer = [], format = Png\<rparr>"
  define c where "c = \<lparr>width = 32, height = 32, buffer = [], format = Png\<rparr>"
  have w: "width a = 16" "width b = 48" "width c = 32"
    and h: "height a = 16" "height b = 48" "height c = 32"
    and p: "pixel_area a = 256" "pixel_area b = 2304" "pixel_area c = 1024"
    by (simp_all add: a_def b_def c_def pixel_area_def)
  note o = getBestMatch_order [of _ "[a, b, c]"]
  \<comment> \<open>an exact match exists\<close>
  have "find (\<lambda>img. width img = 32 \<and> height img = 32) [a, b, c] = Some c"
    by (simp add: w h)
  with o [of 32] have 1: "getBestMatch [a, b, c] 32 = Inr (Some c)" by blast
  \<comment> \<open>no exact match, two images large enough\<close>
  have "(\<forall>img \<in> set [a, b, c]. \<not> (width img = 20 \<and> height img = 20))
        \<and> (\<exists>img \<in> set [a, b, c]. width img \<ge> 20 \<and> height img \<ge> 20)"
    by (simp add: w h)
  with o [of 20] obtain r where r: "r \<in> set [a, b, c]" "getBestMatch [a, b, c] 20 = Inr (Some r)"
    "width r \<ge> 20"
    "\<forall>x \<in> set [a, b, c]. width x \<ge> 20 \<and> height x \<ge> 20 \<longrightarrow> pixel_area r \<le> pixel_area x"
    by blast
  from r(4) have "pixel_area r \<le> pixel_area c" by (simp add: w h)
  with r(1,3) have "r = c" using w p by auto
  with r(2) have 2: "getBestMatch [a, b, c] 20 = Inr (Some c)" by simp
  \<comment> \<open>no image large enough\<close>
  have "[a, b, c] \<noteq> [] \<and> (\<forall>img \<in> set [a, b, c]. \<not> (width img \<ge> 64 \<and> height img \<ge> 64))"
    by (simp add: w h)
  with o [of 64] obtain s where s: "s \<in> set [a, b, c]" "getBestMatch [a, b, c] 64 = Inr (Some s)"
    "\<forall>x \<in> set [a, b, c]. pixel_area x \<le> pixel_area s"
    by blast
  from s(3) have "pixel_area b \<le> pixel_area s" by simp
  with s(1) have "s = b" using p by auto
  with s(2) have 3: "getBestMatch [a, b, c] 64 = Inr (Some b)" by simp
  \<comment> \<open>all images square: the server's selection agrees\<close>
  have "\<forall>img \<in> set [a, b, c]. width img = height img" by (simp add: w h)
  with o [of 20] have "IcoParser_getBestMatch [a, b, c] 20 = getBestMatch [a, b, c] 20"
    by blast
  with 2 have 4: "IcoParser_getBestMatch [a, b, c] 20 = Inr (Some c)" by simp
  from 1 2 3 4 show ?thesis unfolding a_def b_def c_def by blast
qed

text \<open>
  Claim C4 as stated fails for the server's implementation: with a 24x8 and a 32x32 image
  and target size 20, it returns the 24x8 image, whose height is below the target, while
  the browser's implementation returns the 32x32 image.
\<close>

theorem IcoParser_getBestMatch_counterexample:
  "IcoParser_getBestMatch [\<lparr>width = 24, height = 8, buffer = [], format = Png\<rparr>,
                           \<lparr>width = 32, height = 32, buffer = [], format = Png\<rparr>] 20
     = Inr (Some \<lparr>width = 24, height = 8, buffer = [], format = Png\<rparr>)
   \<and> \<not> height \<lparr>width = 24, height = 8, buffer = [], format = Png\<rparr> \<ge> 20
   \<and> getBestMatch [\<lparr>width = 24, height = 8, buffer = [], format = Png\<rparr>,
                   \<lparr>width = 32, height = 32, buffer = [], format = Png\<rparr>] 20
     = Inr (Some \<lparr>width = 32, height = 32, buffer = [], format = Png\<rparr>)"
  by (simp add: IcoParser_getBestMatch_def getBestMatch_def)

section \<open>Properties of the raw-bitmap decoder\<close>

lemma row_index_bound:
  assumes "y < h" "x < (w::nat)"
  shows "(y * w + x) * 4 + 3 < w * h * 4"
proof -
  have "y * w + x < y * w + w" using assms(2) by simp
  also have "\<dots> = Suc y * w" by simp
  also have "\<dots> \<le> h * w" using assms(1) by (intro mult_le_mono1) simp
  finally have "y * w + x < w * h" by (simp add: mult.commute)
  then show ?thesis by simp
qed

lemma row_before:
  assumes "y' < y" "x' < (w::nat)"
  shows "y' * w + x' < y * w"
proof -
  have "y' * w + x' < y' * w + w" using assms(2) by simp
  also have "\<dots> = Suc y' * w" by simp
  also have "\<dots> \<le> y * w" using assms(1) by (intro mult_le_mono1) simp
  finally show ?thesis .
qed

lemma bmp_row_inv:
  assumes "y < h" "length rgba = w * h * 4"
  shows "length (bmp_row buf w h y x0 rgba) = w * h * 4
       \<and> (\<forall>x c. x < w \<longrightarrow> c < 4 \<longrightarrow>
             bmp_row buf w h y x0 rgba ! ((y * w + x) * 4 + c)
               = (if x0 \<le> x then px buf w h x y c else rgba ! ((y * w + x) * 4 + c)))
       \<and> (\<forall>k. k < (y * w) * 4 \<or> (y * w + w) * 4 \<le> k \<longrightarrow>
             bmp_row buf w h y x0 rgba ! k = rgba ! k)"
  using assms
proof (induction buf w h y x0 rgba rule: bmp_row.induct)
  case (1 buf w h y x0 rgba)
  show ?case
  proof (cases "x0 < w")
    case False
    then show ?thesis using "1.prems" by (subst (1 2 3) bmp_row.simps) auto
  next
    case True
    define t where "t = (y * w + x0) * 4"
    define s where "s = 40 + ((h - 1 - y) * w + x0) * 4"
    define rgba' where "rgba' = rgba[t := byte_at buf (s + 2), t + 1 := byte_at buf (s + 1),
                                     t + 2 := byte_at buf s, t + 3 := byte_at buf (s + 3)]"
    have step: "bmp_row buf w h y x0 rgba = bmp_row buf w h y (x0 + 1) rgba'"
      using True by (subst bmp_row.simps) (simp add: Let_def rgba'_def t_def s_def)
    have len': "length rgba' = w * h * 4" using "1.prems" by (simp add: rgba'_def)
    have tb: "t + 3 < length rgba"
      using row_index_bound [OF "1.prems"(1) True] "1.prems"(2) by (simp add: t_def)
    have IH: "length (bmp_row buf w h y (x0 + 1) rgba') = w * h * 4
       \<and> (\<forall>x c. x < w \<longrightarrow> c < 4 \<longrightarrow>
             bmp_row buf w h y (x0 + 1) rgba' ! ((y * w + x) * 4 + c)
               = (if x0 + 1 \<le> x then px buf w h x y c else rgba' ! ((y * w + x) * 4 + c)))
       \<and> (\<forall>k. k < (y * w) * 4 \<or> (y * w + w) * 4 \<le> k \<longrightarrow>
             bmp_row buf w h y (x0 + 1) rgba' ! k = rgba' ! k)"
      using "1.IH" [OF True refl refl "1.prems"(1)] len'
      by (simp add: rgba'_def t_def s_def)
    have cur: "\<And>c. c < 4 \<Longrightarrow> rgba' ! (t + c) = px buf w h x0 y c"
    proof -
      fix c :: nat assume "c < 4"
      then consider "c = 0" | "c = 1" | "c = 2" | "c = 3" by linarith
      then show "rgba' ! (t + c) = px buf w h x0 y c"
        using tb by cases
          (simp_all add: rgba'_def px_def source_offset_def bgra_channel_def s_def)
    qed
    have other: "\<And>k. k < t \<or> t + 4 \<le> k \<Longrightarrow> rgba' ! k = rgba ! k"
      by (auto simp: rgba'_def)
    show ?thesis
    proof (intro conjI allI impI)
      show "length (bmp_row buf w h y x0 rgba) = w * h * 4" using IH step by simp
    next
      fix x c :: nat assume xc: "x < w" "c < 4"
      consider "x < x0" | "x = x0" | "x0 + 1 \<le> x" by linarith
      then show "bmp_row buf w h y x0 rgba ! ((y * w + x) * 4 + c)
               = (if x0 \<le> x then px buf w h x y c else rgba ! ((y * w + x) * 4 + c))"
      proof cases
        case 1
        then have "(y * w + x) * 4 + c < t" using xc by (simp add: t_def)
        with other have "rgba' ! ((y * w + x) * 4 + c) = rgba ! ((y * w + x) * 4 + c)" by blast
        with IH step xc 1 show ?thesis by simp
      next
        case 2
        then have "rgba' ! ((y * w + x) * 4 + c) = px buf w h x y c"
          using cur [OF xc(2)] by (simp add: t_def)
        with IH step xc 2 show ?thesis by simp
      next
        case 3
        with IH step xc show ?thesis by simp
      qed
    next
      fix k assume k: "k < (y * w) * 4 \<or> (y * w + w) * 4 \<le> k"
      then have "k < t \<or> t + 4 \<le> k" using True by (auto simp: t_def)
      with other have "rgba' ! k = rgba ! k" by blast
      moreover from IH k have "bmp_row buf w h y (x0 + 1) rgba' ! k = rgba' ! k" by blast
      ultimately show "bmp_row buf w h y x0 rgba ! k = rgba ! k" using step by simp
    qed
  qed
qed

lemma bmp_rows_inv:
  assumes "length rgba = w * h * 4"
  shows "length (bmp_rows buf w h y0 rgba) = w * h * 4
       \<and> (\<forall>y x c. y < h \<longrightarrow> x < w \<longrightarrow> c < 4 \<longrightarrow>
             bmp_rows buf w h y0 rgba ! ((y * w + x) * 4 + c)
               = (if y0 \<le> y then px buf w h x y c else rgba ! ((y * w + x) * 4 + c)))"
  using assms
proof (induction buf w h y0 rgba rule: bmp_rows.induct)
  case (1 buf w h y0 rgba)
  show ?case
  proof (cases "y0 < h")
    case False
    then show ?thesis using "1.prems" by (subst (1 2) bmp_rows.simps) auto
  next
    case True
    define rgba' where "rgba' = bmp_row buf w h y0 0 rgba"
    have step: "bmp_rows buf w h y0 rgba = bmp_rows buf w h (y0 + 1) rgba'"
      using True by (subst bmp_rows.simps) (simp add: rgba'_def)
    note row = bmp_row_inv [OF True "1.prems", of buf 0, folded rgba'_def]
    from row have len': "length rgba' = w * h * 4" by blast
    from row have cur: "\<And>x c. x < w \<Longrightarrow> c < 4 \<Longrightarrow>
       rgba' ! ((y0 * w + x) * 4 + c) = px buf w h x y0 c" by simp
    from row have other: "\<And>k. k < (y0 * w) * 4 \<or> (y0 * w + w) * 4 \<le> k \<Longrightarrow>
       rgba' ! k = rgba ! k" by blast
    have IH: "length (bmp_rows buf w h (y0 + 1) rgba') = w * h * 4
       \<and> (\<forall>y x c. y < h \<longrightarrow> x < w \<longrightarrow> c < 4 \<longrightarrow>
             bmp_rows buf w h (y0 + 1) rgba' ! ((y * w + x) * 4 + c)
               = (if y0 + 1 \<le> y then px buf w h x y c else rgba' ! ((y * w + x) * 4 + c)))"
      using "1.IH" [OF True] len' by (simp add: rgba'_def)
    show ?thesis
    proof (intro conjI allI impI)
      show "length (bmp_rows buf w h y0 rgba) = w * h * 4" using IH step by simp
    next
      fix y x c :: nat assume yxc: "y < h" "x < w" "c < 4"
      from IH yxc have r: "bmp_rows buf w h (y0 + 1) rgba' ! ((y * w + x) * 4 + c)
               = (if y0 + 1 \<le> y then px buf w h x y c else rgba' ! ((y * w + x) * 4 + c))"
        by blast
      consider "y < y0" | "y = y0" | "y0 + 1 \<le> y" by linarith
      then show "bmp_rows buf w h y0 rgba ! ((y * w + x) * 4 + c)
               = (if y0 \<le> y then px buf w h x y c else rgba ! ((y * w + x) * 4 + c))"
      proof cases
        case 1
        from row_before [OF 1 yxc(2)] yxc(3) have "(y * w + x) * 4 + c < (y0 * w) * 4" by simp
        with other have "rgba' ! ((y * w + x) * 4 + c) = rgba ! ((y * w + x) * 4 + c)" by blast
        with r step 1 show ?thesis by simp
      next
        case 2
        with cur [OF yxc(2,3)] r step show ?thesis by simp
      next
        case 3
        with r step show ?thesis by simp
      qed
    qed
  qed
qed

lemma after_header_short: "int n - 40 < int m \<longleftrightarrow> n < 40 + m"
  by linarith

lemma parseBmpToRgba_fails_iff:
  "(\<exists>e. parseBmpToRgba buf w h = Inl e) \<longleftrightarrow> int (length buf) - 40 < int (w * h * 4)"
  unfolding after_header_short by (simp add: parseBmpToRgba_def Let_def)

lemma parseBmpToRgba_ok:
  assumes "\<not> int (length buf) - 40 < int (w * h * 4)"
  shows "parseBmpToRgba buf w h = Inr (bmp_rows buf w h 0 (replicate (w * h * 4) 0))"
  using assms unfolding after_header_short by (simp add: parseBmpToRgba_def Let_def)

lemma px_in_range:
  assumes "\<not> int (length buf) - 40 < int (w * h * 4)" "y < h" "x < w" "c < 4"
  shows "px buf w h x y c = buf ! (source_offset w h x y + bgra_channel c)"
proof -
  have "h - 1 - y < h" using assms(2) by simp
  from row_index_bound [OF this assms(3)]
  have "((h - 1 - y) * w + x) * 4 + 3 < w * h * 4" .
  moreover have "bgra_channel c \<le> 3" by (simp add: bgra_channel_def)
  moreover from assms(1) have "\<not> length buf < 40 + w * h * 4"
    unfolding after_header_short .
  ultimately have "source_offset w h x y + bgra_channel c < length buf"
    by (simp add: source_offset_def)
  then show ?thesis by (simp add: px_def byte_at_def)
qed

text \<open>
  Claim C5. \<open>parseBmpToRgba\<close> skips a 40-byte header. It fails exactly when the bytes
  after the header are fewer than \<open>width * height * 4\<close> (the buffer length less 40, as an
  integer, is below that number). Otherwise it returns \<open>width * height * 4\<close> bytes, and
  the pixel at column \<open>x\<close>, row \<open>y\<close> (row 0 on top) has its R, G, B, A bytes from the
  source offsets \<open>40 + ((height - 1 - y) * width + x) * 4\<close> plus 2, 1, 0, 3. In particular the
  pixel of source row \<open>r\<close> is the pixel of output row \<open>height - 1 - r\<close>, channels
  reordered.
\<close>

theorem parseBmpToRgba_decodes:
  "((\<exists>e. parseBmpToRgba buf w h = Inl e) \<longleftrightarrow> int (length buf) - 40 < int (w * h * 4))
   \<and> (\<not> int (length buf) - 40 < int (w * h * 4) \<longrightarrow>
        (\<exists>rgba. parseBmpToRgba buf w h = Inr rgba \<and> length rgba = w * h * 4
           \<and> (\<forall>y x. y < h \<longrightarrow> x < w \<longrightarrow>
                  rgba ! ((y * w + x) * 4) = buf ! (source_offset w h x y + 2)
                \<and> rgba ! ((y * w + x) * 4 + 1) = buf ! (source_offset w h x y + 1)
                \<and> rgba ! ((y * w + x) * 4 + 2) = buf ! (source_offset w h x y)
                \<and> rgba ! ((y * w + x) * 4 + 3) = buf ! (source_offset w h x y + 3))
           \<and> (\<forall>r x. r < h \<longrightarrow> x < w \<longrightarrow>
                  rgba ! (((h - 1 - r) * w + x) * 4) = buf ! (40 + (r * w + x) * 4 + 2)
                \<and> rgba ! (((h - 1 - r) * w + x) * 4 + 1) = buf ! (40 + (r * w + x) * 4 + 1)
                \<and> rgba ! (((h - 1 - r) * w + x) * 4 + 2) = buf ! (40 + (r * w + x) * 4)
                \<and> rgba ! (((h - 1 - r) * w + x) * 4 + 3) = buf ! (40 + (r * w + x) * 4 + 3))))"
proof (intro conjI impI)
  show "(\<exists>e. parseBmpToRgba buf w h = Inl e) \<longleftrightarrow> int (length buf) - 40 < int (w * h * 4)"
    by (rule parseBmpToRgba_fails_iff)
next
  assume long: "\<not> int (length buf) - 40 < int (w * h * 4)"
  define rgba where "rgba = bmp_rows buf w h 0 (replicate (w * h * 4) 0)"
  have res: "parseBmpToRgba buf w h = Inr rgba"
    using parseBmpToRgba_ok [OF long] by (simp add: rgba_def)
  have inv: "length rgba = w * h * 4"
    "\<And>y x c. y < h \<Longrightarrow> x < w \<Longrightarrow> c < 4 \<Longrightarrow> rgba ! ((y * w + x) * 4 + c) = px buf w h x y c"
    using bmp_rows_inv [of "replicate (w * h * 4) 0" w h buf 0] by (simp_all add: rgba_def)
  have pix: "rgba ! ((y * w + x) * 4 + c) = buf ! (source_offset w h x y + bgra_channel c)"
    if "y < h" "x < w" "c < 4" for y x c
    using inv(2) [OF that] px_in_range [OF long that] by simp
  have top: "rgba ! ((y * w + x) * 4) = buf ! (source_offset w h x y + 2)
           \<and> rgba ! ((y * w + x) * 4 + 1) = buf ! (source_offset w h x y + 1)
           \<and> rgba ! ((y * w + x) * 4 + 2) = buf ! (source_offset w h x y)
           \<and> rgba ! ((y * w + x) * 4 + 3) = buf ! (source_offset w h x y + 3)"
    if "y < h" "x < w" for y x
    using pix [OF that, of 0] pix [OF that, of 1] pix [OF that, of 2] pix [OF that, of 3]
    by (simp add: bgra_channel_def)
  have mirror: "rgba ! (((h - 1 - r) * w + x) * 4) = buf ! (40 + (r * w + x) * 4 + 2)
           \<and> rgba ! (((h - 1 - r) * w + x) * 4 + 1) = buf ! (40 + (r * w + x) * 4 + 1)
           \<and> rgba ! (((h - 1 - r) * w + x) * 4 + 2) = buf ! (40 + (r * w + x) * 4)
           \<and> rgba ! (((h - 1 - r) * w + x) * 4 + 3) = buf ! (40 + (r * w + x) * 4 + 3)"
    if "r < h" "x < w" for r x
  proof -
    from that(1) have a: "h - 1 - r < h" and b: "h - 1 - (h - 1 - r) = r" by simp_all
    from b have "source_offset w h x (h - 1 - r) = 40 + (r * w + x) * 4"
      by (simp add: source_offset_def)
    with top [OF a that(2)] show ?thesis by simp
  qed
  from res inv(1) top mirror
  show "\<exists>rgba. parseBmpToRgba buf w h = Inr rgba \<and> length rgba = w * h * 4
           \<and> (\<forall>y x. y < h \<longrightarrow> x < w \<longrightarrow>
                  rgba ! ((y * w + x) * 4) = buf ! (source_offset w h x y + 2)
                \<and> rgba ! ((y * w + x) * 4 + 1) = buf ! (source_offset w h x y + 1)
                \<and> rgba ! ((y * w + x) * 4 + 2) = buf ! (source_offset w h x y)
                \<and> rgba ! ((y * w + x) * 4 + 3) = buf ! (source_offset w h x y + 3))
           \<and> (\<forall>r x. r < h \<longrightarrow> x < w \<longrightarrow>
                  rgba ! (((h - 1 - r) * w + x) * 4) = buf ! (40 + (r * w + x) * 4 + 2)
                \<and> rgba ! (((h - 1 - r) * w + x) * 4 + 1) = buf ! (40 + (r * w + x) * 4 + 1)
                \<and> rgba ! (((h - 1 - r) * w + x) * 4 + 2) = buf ! (40 + (r * w + x) * 4)
                \<and> rgba ! (((h - 1 - r) * w + x) * 4 + 3) = buf ! (40 + (r * w + x) * 4 + 3))"
    by blast
qed

lemma parseBmpToRgba_example:
  "parseBmpToRgba (replicate 40 0 @ [1, 2, 3, 4,  5, 6, 7, 8]) 1 2
     = Inr [7, 6, 5, 8,  3, 2, 1, 4]"
  by (simp add: parseBmpToRgba_def bmp_rows.simps bmp_row.simps byte_at_def Let_def
      nth_append) (simp add: eval_nat_numeral)

text \<open>
  A bitmap one pixel wide and two high: the pixel stored first (source row 0, bytes
  B=1, G=2, R=3, A=4) is the bottom pixel of the output, as R=3, G=2, B=1, A=4. One byte
  less and the decoder fails.
\<close>

theorem parseBmpToRgba_decodes_witness:
  "parseBmpToRgba (replicate 40 0 @ [1, 2, 3, 4,  5, 6, 7, 8]) 1 2
     = Inr [7, 6, 5, 8,  3, 2, 1, 4]
   \<and> [7, 6, 5, 8,  3, 2, 1, 4 :: byte] ! (((2 - 1 - 0) * 1 + 0) * 4)
       = (replicate 40 0 @ [1, 2, 3, 4,  5, 6, 7, 8]) ! (40 + (0 * 1 + 0) * 4 + 2)
   \<and> (\<exists>e. parseBmpToRgba (replicate 40 0 @ [1, 2, 3, 4,  5, 6, 7]) 1 2 = Inl e)"
proof -
  let ?B = "replicate 40 0 @ [1, 2, 3, 4,  5, 6, 7, 8] :: byte list"
  let ?S = "replicate 40 0 @ [1, 2, 3, 4,  5, 6, 7] :: byte list"
  have long: "\<not> int (length ?B) - 40 < int (1 * 2 * 4)" by simp
  have short: "int (length ?S) - 40 < int (1 * 2 * 4)" by simp
  from parseBmpToRgba_decodes [of ?B 1 2] long parseBmpToRgba_example
  have "[7, 6, 5, 8,  3, 2, 1, 4 :: byte] ! (((2 - 1 - 0) * 1 + 0) * 4)
       = ?B ! (40 + (0 * 1 + 0) * 4 + 2)"
    by (metis Inr_inject one_less_numeral_iff semiring_norm(76) zero_less_numeral zero_less_one)
  moreover from parseBmpToRgba_decodes [of ?S 1 2] short
  have "\<exists>e. parseBmpToRgba ?S 1 2 = Inl e" by blast
  ultimately show ?thesis using parseBmpToRgba_example by blast
qed

section \<open>Properties of the writer, and of writing then parsing\<close>

lemma length_write_at [simp]:
  "off + length bs \<le> length view \<Longrightarrow> length (write_at view off bs) = length view"
  by (simp add: write_at_def)

lemma write_at_merge:
  assumes "off' = off + length a" "off' + length b \<le> length view"
  shows "write_at (write_at view off a) off' b = write_at view off (a @ b)"
  using assms by (simp add: write_at_def add.assoc add.commute add.left_commute)

lemma write_at_frame:
  assumes "off = length X" "length new = length old"
  shows "write_at (X @ old @ Y) off new = X @ new @ Y"
  using assms by (simp add: write_at_def)

lemma update_write_at:
  assumes "off < length view"
  shows "view[off := b] = write_at view off [b]"
  using assms by (simp add: write_at_def upd_conv_take_nth_drop)

lemma setUint8_write:
  "off + 1 \<le> length view \<Longrightarrow> setUint8 view off v = Inr (write_at view off [of_nat v])"
  by (simp add: setUint8_def update_write_at)

lemma setUint16_write:
  assumes "off + 2 \<le> length view"
  shows "setUint16 view off v = Inr (write_at view off (u16le v))"
proof -
  have "view[off := of_nat v, off + 1 := of_nat (v div 256)]
          = write_at (write_at view off [of_nat v]) (off + 1) [of_nat (v div 256)]"
    using assms by (simp add: update_write_at)
  also have "\<dots> = write_at view off ([of_nat v] @ [of_nat (v div 256)])"
    using assms by (intro write_at_merge) simp_all
  finally show ?thesis using assms by (simp add: setUint16_def u16le_def)
qed

lemma setUint32_write:
  assumes "off + 4 \<le> length view"
  shows "setUint32 view off v = Inr (write_at view off (u32le v))"
proof -
  let ?a = "of_nat v :: byte" and ?b = "of_nat (v div 256) :: byte"
    and ?c = "of_nat (v div 65536) :: byte" and ?d = "of_nat (v div 16777216) :: byte"
  have "view[off := ?a, off + 1 := ?b, off + 2 := ?c, off + 3 := ?d]
          = write_at (write_at (write_at (write_at view off [?a]) (off + 1) [?b]) (off + 2) [?c])
              (off + 3) [?d]"
    using assms by (simp add: update_write_at)
  also have "\<dots> = write_at (write_at (write_at view off ([?a] @ [?b])) (off + 2) [?c])
              (off + 3) [?d]"
    using assms by (subst write_at_merge [of "off + 1" off "[?a]"]) simp_all
  also have "\<dots> = write_at (write_at view off (([?a] @ [?b]) @ [?c])) (off + 3) [?d]"
    using assms by (subst write_at_merge [of "off + 2" off "[?a] @ [?b]"]) simp_all
  also have "\<dots> = write_at view off ((([?a] @ [?b]) @ [?c]) @ [?d])"
    using assms by (subst write_at_merge [of "off + 3" off "([?a] @ [?b]) @ [?c]"]) simp_all
  finally show ?thesis using assms by (simp add: setUint32_def u32le_def)
qed

lemma set_array_write:
  "off + length src \<le> length view \<Longrightarrow> set_array view src off = Inr (write_at view off src)"
  by (simp add: set_array_def write_at_def)

lemma length_u16le [simp]: "length (u16le v) = 2"
  by (simp add: u16le_def)

lemma length_u32le [simp]: "length (u32le v) = 4"
  by (simp add: u32le_def)

lemma length_dir_entry [simp]: "length (dir_entry s n off) = 16"
  by (simp add: dir_entry_def)

lemma length_ico_header [simp]: "length (ico_header n) = 6"
  by (simp add: ico_header_def)

lemma write_entry_writes:
  assumes "map_of imageBuffers (sizes ! i) = Some b"
    and "6 + i * 16 + 16 \<le> length view" and "off + length b \<le> length view"
  shows "write_entry imageBuffers sizes i off view
           = Inr (write_at (write_at view (6 + i * 16) (dir_entry (sizes ! i) (length b) off))
                   off b,
                  off + length b)"
proof -
  define e where "e = 6 + i * 16"
  define d where "d = dir_byte (sizes ! i)"
  have e: "e + 16 \<le> length view" using assms(2) by (simp add: e_def)
  have 1: "setUint8 view e (if sizes ! i = 256 then 0 else sizes ! i)
             = Inr (write_at view e [d])"
    using e by (simp add: setUint8_write d_def dir_byte_def)
  have 2: "setUint8 (write_at view e [d]) (e + 1) (if sizes ! i = 256 then 0 else sizes ! i)
             = Inr (write_at view e [d, d])"
    using e by (simp add: setUint8_write d_def dir_byte_def write_at_merge)
  have 3: "setUint8 (write_at view e [d, d]) (e + 2) 0 = Inr (write_at view e [d, d, 0])"
    using e by (simp add: setUint8_write write_at_merge)
  have 4: "setUint8 (write_at view e [d, d, 0]) (e + 3) 0 = Inr (write_at view e [d, d, 0, 0])"
    using e by (simp add: setUint8_write write_at_merge)
  have 5: "setUint16 (write_at view e [d, d, 0, 0]) (e + 4) 1
             = Inr (write_at view e ([d, d, 0, 0] @ u16le 1))"
    using e by (simp add: setUint16_write write_at_merge)
  have 6: "setUint16 (write_at view e ([d, d, 0, 0] @ u16le 1)) (e + 6) 32
             = Inr (write_at view e ([d, d, 0, 0] @ u16le 1 @ u16le 32))"
    using e by (simp add: setUint16_write write_at_merge)
  have 7: "setUint32 (write_at view e ([d, d, 0, 0] @ u16le 1 @ u16le 32)) (e + 8) (length b)
             = Inr (write_at view e ([d, d, 0, 0] @ u16le 1 @ u16le 32 @ u32le (length b)))"
    using e by (simp add: setUint32_write write_at_merge)
  have 8: "setUint32 (write_at view e ([d, d, 0, 0] @ u16le 1 @ u16le 32 @ u32le (length b)))
               (e + 12) off
             = Inr (write_at view e (dir_entry (sizes ! i) (length b) off))"
    using e by (simp add: setUint32_write write_at_merge dir_entry_def d_def)
  have 9: "set_array (write_at view e (dir_entry (sizes ! i) (length b) off)) b off
             = Inr (write_at (write_at view e (dir_entry (sizes ! i) (length b) off)) off b)"
    using e assms(3) by (simp add: set_array_write)
  show ?thesis
    unfolding write_entry_def Let_def assms(1) option.case e_def [symmetric]
    by (simp only: 1 2 3 4 5 6 7 8 9 and_then_Inr)
qed

lemma payload_length_Nil [simp]: "payload_length [] = 0"
  by (simp add: payload_length_def)

lemma payload_length_Cons [simp]: "payload_length ((s, b) # rest) = length b + payload_length rest"
  by (simp add: payload_length_def)

lemma length_dir_from [simp]: "length (dir_from rest off) = 16 * length rest"
  by (induction rest off rule: dir_from.induct) simp_all

lemma length_concat_payloads: "length (concat (map snd items)) = payload_length items"
  by (induction items) (auto simp: payload_length_def)

lemma drop_eq_ConsD:
  assumes "drop i xs = y # ys"
  shows "i < length xs \<and> xs ! i = y \<and> drop (Suc i) xs = ys"
proof -
  from assms have lt: "i < length xs" by (cases "i < length xs") auto
  from Cons_nth_drop_Suc [OF lt] assms show ?thesis using lt by simp
qed

lemma write_entries_done:
  "length sizes \<le> i \<Longrightarrow> write_entries imageBuffers sizes i off view = Inr view"
  by (subst write_entries.simps) simp

lemma write_entries_step:
  assumes "i < length sizes" "write_entry imageBuffers sizes i off view = Inr (view', off')"
  shows "write_entries imageBuffers sizes i off view
           = write_entries imageBuffers sizes (i + 1) off' view'"
  using assms by (subst write_entries.simps) simp

lemma write_entries_layout:
  assumes "drop i items = rest"
    and "sizes = map fst items"
    and "\<forall>(s, b) \<in> set items. map_of imageBuffers s = Some b"
    and "length A = 6 + 16 * i"
    and "off = length A + 16 * length rest + length P"
  shows "write_entries imageBuffers sizes i off
           (A @ replicate (16 * length rest) 0 @ P @ replicate (payload_length rest) 0)
         = Inr (A @ dir_from rest off @ P @ concat (map snd rest))"
  using assms(1,4,5)
proof (induction rest arbitrary: i A P off)
  case Nil
  then have "length sizes \<le> i" using assms(2) by simp
  then show ?case by (simp add: write_entries_done)
next
  case (Cons x rest')
  obtain s b where x: "x = (s, b)" by (cases x)
  from drop_eq_ConsD [OF Cons.prems(1)]
  have lt: "i < length items" and nth: "items ! i = (s, b)" and dr: "drop (Suc i) items = rest'"
    by (simp_all add: x)
  from lt assms(2) have lts: "i < length sizes" and sz: "sizes ! i = s"
    using nth by simp_all
  from lt nth have "(s, b) \<in> set items" by (metis nth_mem)
  with assms(3) have look: "map_of imageBuffers (sizes ! i) = Some b" using sz by auto
  define k where "k = length rest'"
  define Y where "Y = replicate (payload_length rest') (0::byte)"
  define Z where "Z = replicate (16 * k) (0::byte)"
  define view where "view = A @ replicate (16 * length (x # rest')) 0 @ P
                              @ replicate (payload_length (x # rest')) 0"
  define entry where "entry = dir_entry s (length b) off"
  have view: "view = A @ replicate 16 0 @ (Z @ P @ replicate (length b) 0 @ Y)"
    by (simp add: view_def x k_def Y_def Z_def replicate_add [symmetric])
  have lenv: "length view = length A + 16 + 16 * k + length P + length b + payload_length rest'"
    by (simp add: view Y_def Z_def)
  have offv: "off = length A + 16 + 16 * k + length P"
    using Cons.prems(3) by (simp add: k_def)
  have w: "write_entry imageBuffers sizes i off view
             = Inr (write_at (write_at view (6 + i * 16) (dir_entry (sizes ! i) (length b) off))
                      off b, off + length b)"
    by (rule write_entry_writes [OF look]) (use lenv offv Cons.prems(2) in simp_all)
  have e1: "write_at view (6 + i * 16) entry = A @ entry @ (Z @ P @ replicate (length b) 0 @ Y)"
    unfolding view
    by (rule write_at_frame) (use Cons.prems(2) in \<open>simp_all add: entry_def\<close>)
  have "write_at ((A @ entry @ Z @ P) @ replicate (length b) 0 @ Y) off b
          = (A @ entry @ Z @ P) @ b @ Y"
    by (rule write_at_frame) (simp_all add: offv entry_def Z_def)
  then have e2: "write_at (write_at view (6 + i * 16) entry) off b
                   = (A @ entry) @ Z @ (P @ b) @ Y"
    by (simp add: e1)
  have step: "write_entries imageBuffers sizes i off view
                = write_entries imageBuffers sizes (i + 1) (off + length b)
                    ((A @ entry) @ Z @ (P @ b) @ Y)"
    using write_entries_step [OF lts w] unfolding sz entry_def [symmetric] e2 .
  have IH: "write_entries imageBuffers sizes (Suc i) (off + length b)
              ((A @ entry) @ replicate (16 * length rest') 0 @ (P @ b)
                 @ replicate (payload_length rest') 0)
            = Inr ((A @ entry) @ dir_from rest' (off + length b) @ (P @ b)
                     @ concat (map snd rest'))"
    by (rule Cons.IH [OF dr]) (use Cons.prems(2) offv in \<open>simp_all add: entry_def k_def\<close>)
  have "write_entries imageBuffers sizes i off view
          = Inr (A @ dir_from (x # rest') off @ P @ concat (map snd (x # rest')))"
    using step IH by (simp add: x entry_def Z_def Y_def k_def)
  then show ?case unfolding view_def .
qed

lemma map_fst_sorted_images [simp]:
  "map fst (sorted_images imageBuffers) = sort (remdups (map fst imageBuffers))"
  by (simp add: sorted_images_def comp_def)

lemma length_sorted_images [simp]:
  "length (sorted_images imageBuffers) = length (remdups (map fst imageBuffers))"
  by (simp add: sorted_images_def)

lemma sorted_images_lookup:
  "\<forall>(s, b) \<in> set (sorted_images imageBuffers). map_of imageBuffers s = Some b"
proof -
  have "map_of imageBuffers s = Some (case map_of imageBuffers s of Some b \<Rightarrow> b | None \<Rightarrow> [])"
    if "s \<in> set (map fst imageBuffers)" for s
  proof -
    from that have "map_of imageBuffers s \<noteq> None" by (simp add: map_of_eq_None_iff)
    then show ?thesis by (cases "map_of imageBuffers s") simp_all
  qed
  then show ?thesis by (auto simp: sorted_images_def)
qed

lemma total_size_items:
  assumes "\<forall>(s, b) \<in> set items. map_of imageBuffers s = Some b"
  shows "total_size imageBuffers (map fst items) t = Inr (t + payload_length items)"
  using assms
proof (induction items arbitrary: t)
  case Nil
  show ?case by simp
next
  case (Cons x items)
  obtain s b where x: "x = (s, b)" by (cases x)
  from Cons.prems have look: "map_of imageBuffers s = Some b"
    and rest: "\<forall>(s, b) \<in> set items. map_of imageBuffers s = Some b"
    by (auto simp: x)
  from Cons.IH [OF rest, of "t + length b"] look show ?case by (simp add: x)
qed

lemma header_writes:
  assumes "6 \<le> length view"
  shows "and_then (setUint16 view 0 0) (\<lambda>view.
         and_then (setUint16 view 2 1) (\<lambda>view.
         and_then (setUint16 view 4 n) f))
         = f (write_at view 0 (ico_header n))"
proof -
  have 1: "setUint16 view 0 0 = Inr (write_at view 0 (u16le 0))"
    using assms by (simp add: setUint16_write)
  have 2: "setUint16 (write_at view 0 (u16le 0)) 2 1 = Inr (write_at view 0 (u16le 0 @ u16le 1))"
    using assms by (simp add: setUint16_write write_at_merge)
  have 3: "setUint16 (write_at view 0 (u16le 0 @ u16le 1)) 4 n
             = Inr (write_at view 0 (ico_header n))"
    using assms by (simp add: setUint16_write write_at_merge ico_header_def)
  show ?thesis by (simp only: 1 2 3 and_then_Inr)
qed

lemma createIcoFromPngs_running:
  "createIcoFromPngs imageBuffers
     = Inr (ico_header (length (sorted_images imageBuffers))
            @ dir_from (sorted_images imageBuffers) (6 + 16 * length (sorted_images imageBuffers))
            @ concat (map snd (sorted_images imageBuffers)))"
proof -
  define items where "items = sorted_images imageBuffers"
  define sizes where "sizes = sort (remdups (map fst imageBuffers))"
  define n where "n = length items"
  define total where "total = 6 + n * 16 + payload_length items"
  have sizes: "sizes = map fst items" by (simp add: sizes_def items_def)
  have cnt: "length sizes = n" by (simp add: sizes n_def)
  have look: "\<forall>(s, b) \<in> set items. map_of imageBuffers s = Some b"
    unfolding items_def by (rule sorted_images_lookup)
  have tot: "total_size imageBuffers sizes (6 + n * 16) = Inr total"
    unfolding sizes total_def by (rule total_size_items [OF look])
  have "write_at ([] @ replicate 6 0 @ replicate (16 * n + payload_length items) 0) 0
          (ico_header n)
        = [] @ ico_header n @ replicate (16 * n + payload_length items) 0"
    by (rule write_at_frame) simp_all
  moreover have "replicate total (0::byte)
        = [] @ replicate 6 0 @ replicate (16 * n + payload_length items) 0"
    by (simp add: total_def replicate_add [symmetric])
  ultimately have hdr: "write_at (replicate total 0) 0 (ico_header n)
        = ico_header n @ replicate (16 * length items) 0 @ []
            @ replicate (payload_length items) 0"
    by (simp add: replicate_add n_def)
  have loop: "write_entries imageBuffers sizes 0 (6 + n * 16)
           (ico_header n @ replicate (16 * length items) 0 @ []
              @ replicate (payload_length items) 0)
         = Inr (ico_header n @ dir_from items (6 + n * 16) @ [] @ concat (map snd items))"
    by (rule write_entries_layout [OF _ sizes look]) (simp_all add: n_def)
  have "createIcoFromPngs imageBuffers
          = write_entries imageBuffers sizes 0 (6 + n * 16)
              (write_at (replicate total 0) 0 (ico_header n))"
    unfolding createIcoFromPngs_def Let_def sizes_def [symmetric] cnt tot and_then_Inr
    by (rule header_writes) (simp add: total_def)
  with hdr loop show ?thesis by (simp add: items_def n_def mult.commute)
qed

lemma dir_from_indexed:
  "dir_from rest off
     = concat (map (\<lambda>j. dir_entry (fst (rest ! j)) (length (snd (rest ! j)))
                            (off + payload_length (take j rest))) [0..<length rest])"
proof (induction rest arbitrary: off)
  case Nil
  show ?case by simp
next
  case (Cons x rest)
  obtain s b where x: "x = (s, b)" by (cases x)
  have "[0..<length (x # rest)] = 0 # map Suc [0..<length rest]"
    by (simp add: upt_conv_Cons map_Suc_upt del: upt_Suc)
  then show ?case
    using Cons.IH [of "off + length b"] by (simp add: x comp_def add.assoc del: upt_Suc)
qed

lemma createIcoFromPngs_layout:
  "createIcoFromPngs imageBuffers = Inr (ico_layout (sorted_images imageBuffers))"
  by (simp add: createIcoFromPngs_running ico_layout_def image_offset_def payload_length_def
      dir_from_indexed [of _ "6 + 16 * length (remdups (map fst imageBuffers))"])

lemma concat_blocks_nth:
  assumes "\<forall>b \<in> set bs. length b = k" "i < length bs" "j < k"
  shows "concat bs ! (k * i + j) = bs ! i ! j"
  using assms
proof (induction bs arbitrary: i)
  case Nil
  then show ?case by simp
next
  case (Cons b bs)
  show ?case
  proof (cases i)
    case 0
    with Cons.prems show ?thesis by (simp add: nth_append)
  next
    case (Suc i')
    with Cons.prems have "concat bs ! (k * i' + j) = bs ! i' ! j"
      by (intro Cons.IH) auto
    moreover have "length b = k" using Cons.prems by simp
    ultimately show ?thesis using Suc by (simp add: nth_append add.assoc)
  qed
qed

lemma length_concat_blocks:
  assumes "\<forall>b \<in> set bs. length b = k"
  shows "length (concat bs) = k * length bs"
  using assms by (induction bs) simp_all

lemma length_entry_of [simp]: "length (entry_of items i) = 16"
  by (simp add: entry_of_def)

lemma ico_layout_alt:
  "ico_layout items
     = ico_header (length items) @ concat (map (entry_of items) [0..<length items])
       @ concat (map snd items)"
proof -
  have "entry_of items
          = (\<lambda>i. dir_entry (fst (items ! i)) (length (snd (items ! i))) (image_offset items i))"
    by (rule ext) (simp add: entry_of_def)
  then show ?thesis by (simp add: ico_layout_def)
qed

lemma length_directory [simp]:
  "length (concat (map (entry_of items) [0..<length items])) = 16 * length items"
  using length_concat_blocks [of "map (entry_of items) [0..<length items]" 16] by simp

lemma length_ico_layout:
  "length (ico_layout items) = 6 + 16 * length items + payload_length items"
  by (simp add: ico_layout_alt length_concat_payloads)

lemma ico_layout_header_nth:
  assumes "j < 6"
  shows "ico_layout items ! j = ico_header (length items) ! j"
  using assms by (simp add: ico_layout_alt nth_append)

lemma ico_layout_entry_nth:
  assumes "i < length items" "j < 16"
  shows "ico_layout items ! (6 + 16 * i + j) = entry_of items i ! j"
proof -
  have "concat (map (entry_of items) [0..<length items]) ! (16 * i + j)
          = map (entry_of items) [0..<length items] ! i ! j"
    by (rule concat_blocks_nth) (use assms in auto)
  also have "\<dots> = entry_of items i ! j" using assms by simp
  finally have d: "concat (map (entry_of items) [0..<length items]) ! (16 * i + j)
                     = entry_of items i ! j" .
  have "16 * i + j < 16 * length items" using assms by simp
  then show ?thesis
    by (simp add: ico_layout_alt nth_append d add.assoc)
qed

lemma drop_concat_payloads:
  "i \<le> length items \<Longrightarrow>
     drop (payload_length (take i items)) (concat (map snd items)) = concat (map snd (drop i items))"
proof (induction items arbitrary: i)
  case Nil
  show ?case by simp
next
  case (Cons x items)
  obtain s b where x: "x = (s, b)" by (cases x)
  show ?case
  proof (cases i)
    case 0
    show ?thesis by (simp add: 0)
  next
    case (Suc i')
    with Cons.prems have "i' \<le> length items" by simp
    from Cons.IH [OF this] show ?thesis by (simp add: Suc x)
  qed
qed

lemma ico_layout_payload:
  assumes "i < length items"
  shows "subarray (ico_layout items) (image_offset items i)
           (image_offset items i + length (snd (items ! i))) = snd (items ! i)"
proof -
  have off: "image_offset items i = 6 + 16 * length items + payload_length (take i items)"
    by (simp add: image_offset_def payload_length_def)
  have "drop (image_offset items i) (ico_layout items)
          = drop (payload_length (take i items)) (concat (map snd items))"
    by (simp add: ico_layout_alt off)
  also have "\<dots> = concat (map snd (drop i items))"
    using assms by (intro drop_concat_payloads) simp
  also have "\<dots> = snd (items ! i) @ concat (map snd (drop (Suc i) items))"
    using assms by (simp add: Cons_nth_drop_Suc [symmetric])
  finally show ?thesis by (simp add: subarray_def)
qed

lemma image_offset_bound:
  assumes "i < length items"
  shows "image_offset items i + length (snd (items ! i)) \<le> length (ico_layout items)"
proof -
  have "payload_length items
          = payload_length (take i items) + payload_length (drop i items)"
    unfolding payload_length_def by (metis append_take_drop_id map_append sum_list_append)
  moreover have "drop i items = items ! i # drop (Suc i) items"
    using assms by (simp add: Cons_nth_drop_Suc)
  then have "length (snd (items ! i)) \<le> payload_length (drop i items)"
    by (cases "items ! i") (simp add: payload_length_def)
  ultimately show ?thesis
    by (simp add: length_ico_layout image_offset_def payload_length_def)
qed

lemma unat_byte: "unat (of_nat v :: byte) = v mod 256"
  by (simp add: unat_of_nat)

lemma decode_u16: "unat (of_nat v :: byte) + 256 * unat (of_nat (v div 256) :: byte) = v mod 65536"
proof -
  have "v mod (256 * 256) = 256 * (v div 256 mod 256) + v mod 256"
    by (rule mod_mult2_eq)
  then show ?thesis by (simp add: unat_byte)
qed

lemma decode_u32:
  "unat (of_nat v :: byte) + 256 * unat (of_nat (v div 256) :: byte)
     + 65536 * unat (of_nat (v div 65536) :: byte)
     + 16777216 * unat (of_nat (v div 16777216) :: byte) = v mod 4294967296"
proof -
  have a: "v mod (65536 * 65536) = 65536 * (v div 65536 mod 65536) + v mod 65536"
    by (rule mod_mult2_eq)
  have b: "v mod 65536 = 256 * (v div 256 mod 256) + v mod 256"
    using mod_mult2_eq [of v 256 256] by simp
  have c: "v div 65536 mod 65536 = 256 * (v div 65536 div 256 mod 256) + v div 65536 mod 256"
    using mod_mult2_eq [of "v div 65536" 256 256] by simp
  have d: "v div 65536 div 256 = v div 16777216"
    by (simp add: div_mult2_eq [symmetric])
  from a b c d show ?thesis by (simp add: unat_byte)
qed

lemma u16_at_append:
  "u16_at (u16le v @ rest) 0 = v mod 65536"
  by (simp add: u16_at_def u16le_def decode_u16)

lemma layout_width_byte:
  assumes "i < length items"
  shows "ico_layout items ! (6 + i * 16) = dir_byte (fst (items ! i))"
    and "ico_layout items ! (6 + i * 16 + 1) = dir_byte (fst (items ! i))"
  using ico_layout_entry_nth [OF assms, of 0] ico_layout_entry_nth [OF assms, of 1]
  by (simp_all add: entry_of_def dir_entry_def mult.commute)

lemma layout_u32_field:
  assumes "i < length items" "j + 4 \<le> 16"
  shows "u32_at (ico_layout items) (6 + 16 * i + j)
           = unat (entry_of items i ! j) + 256 * unat (entry_of items i ! (j + 1))
             + 65536 * unat (entry_of items i ! (j + 2))
             + 16777216 * unat (entry_of items i ! (j + 3))"
proof -
  have f0: "ico_layout items ! (6 + 16 * i + j) = entry_of items i ! j"
    by (rule ico_layout_entry_nth [OF assms(1)]) (use assms(2) in simp)
  have f1: "ico_layout items ! (6 + 16 * i + j + 1) = entry_of items i ! (j + 1)"
    using ico_layout_entry_nth [OF assms(1), of "j + 1"] assms(2) by (simp add: add.assoc)
  have f2: "ico_layout items ! (6 + 16 * i + j + 2) = entry_of items i ! (j + 2)"
    using ico_layout_entry_nth [OF assms(1), of "j + 2"] assms(2) by (simp add: add.assoc)
  have f3: "ico_layout items ! (6 + 16 * i + j + 3) = entry_of items i ! (j + 3)"
    using ico_layout_entry_nth [OF assms(1), of "j + 3"] assms(2) by (simp add: add.assoc)
  show ?thesis unfolding u32_at_def f0 f1 f2 f3 ..
qed

lemma entry_of_size_bytes:
  "unat (entry_of items i ! 8) + 256 * unat (entry_of items i ! (8 + 1))
     + 65536 * unat (entry_of items i ! (8 + 2))
     + 16777216 * unat (entry_of items i ! (8 + 3))
   = length (snd (items ! i)) mod 4294967296"
proof -
  have "entry_of items i ! 8 = of_nat (length (snd (items ! i)))"
    "entry_of items i ! (8 + 1) = of_nat (length (snd (items ! i)) div 256)"
    "entry_of items i ! (8 + 2) = of_nat (length (snd (items ! i)) div 65536)"
    "entry_of items i ! (8 + 3) = of_nat (length (snd (items ! i)) div 16777216)"
    by (simp_all add: entry_of_def dir_entry_def u16le_def u32le_def)
  then show ?thesis by (simp only: decode_u32)
qed

lemma entry_of_offset_bytes:
  "unat (entry_of items i ! 12) + 256 * unat (entry_of items i ! (12 + 1))
     + 65536 * unat (entry_of items i ! (12 + 2))
     + 16777216 * unat (entry_of items i ! (12 + 3))
   = image_offset items i mod 4294967296"
proof -
  have "entry_of items i ! 12 = of_nat (image_offset items i)"
    "entry_of items i ! (12 + 1) = of_nat (image_offset items i div 256)"
    "entry_of items i ! (12 + 2) = of_nat (image_offset items i div 65536)"
    "entry_of items i ! (12 + 3) = of_nat (image_offset items i div 16777216)"
    by (simp_all add: entry_of_def dir_entry_def u16le_def u32le_def)
  then show ?thesis by (simp only: decode_u32)
qed

lemma layout_image_size:
  assumes "i < length items"
  shows "u32_at (ico_layout items) (6 + 16 * i + 8) = length (snd (items ! i)) mod 4294967296"
proof -
  have "u32_at (ico_layout items) (6 + 16 * i + 8)
          = unat (entry_of items i ! 8) + 256 * unat (entry_of items i ! (8 + 1))
            + 65536 * unat (entry_of items i ! (8 + 2))
            + 16777216 * unat (entry_of items i ! (8 + 3))"
    by (rule layout_u32_field [OF assms]) simp
  also have "\<dots> = length (snd (items ! i)) mod 4294967296"
    by (rule entry_of_size_bytes)
  finally show ?thesis .
qed

lemma layout_image_offset:
  assumes "i < length items"
  shows "u32_at (ico_layout items) (6 + 16 * i + 12) = image_offset items i mod 4294967296"
proof -
  have "u32_at (ico_layout items) (6 + 16 * i + 12)
          = unat (entry_of items i ! 12) + 256 * unat (entry_of items i ! (12 + 1))
            + 65536 * unat (entry_of items i ! (12 + 2))
            + 16777216 * unat (entry_of items i ! (12 + 3))"
    by (rule layout_u32_field [OF assms]) simp
  also have "\<dots> = image_offset items i mod 4294967296"
    by (rule entry_of_offset_bytes)
  finally show ?thesis .
qed

lemma layout_header_fields:
  "u16_at (ico_layout items) 0 = 0"
  "u16_at (ico_layout items) 2 = 1"
  "declared_count (ico_layout items) = length items mod 65536"
proof -
  have h: "ico_layout items ! 0 = 0" "ico_layout items ! (0 + 1) = 0"
    "ico_layout items ! 2 = 1" "ico_layout items ! (2 + 1) = 0"
    "ico_layout items ! 4 = of_nat (length items)"
    "ico_layout items ! (4 + 1) = of_nat (length items div 256)"
    by (simp_all add: ico_layout_header_nth ico_header_def u16le_def)
  show "u16_at (ico_layout items) 0 = 0" "u16_at (ico_layout items) 2 = 1"
    unfolding u16_at_def h by simp_all
  show "declared_count (ico_layout items) = length items mod 65536"
    unfolding declared_count_def u16_at_def h by (rule decode_u16)
qed

lemma unat_dir_byte:
  assumes "1 \<le> s" "s \<le> 256"
  shows "(if unat (dir_byte s) = 0 then 256 else unat (dir_byte s)) = s"
  using assms by (auto simp: dir_byte_def unat_byte)

text \<open>The descriptor the reader makes of one image of the writer.\<close>

lemma parse_entry_layout:
  assumes i: "i < length items"
    and sz: "1 \<le> fst (items ! i)" "fst (items ! i) \<le> 256"
    and small: "length (ico_layout items) < 4294967296"
  shows "parse_entry (ico_layout items) i
           = Inr \<lparr> width = fst (items ! i), height = fst (items ! i),
                    buffer = snd (items ! i), format = detect_format (snd (items ! i)) \<rparr>"
proof -
  let ?buf = "ico_layout items"
  have inr: "6 + i * 16 + 16 \<le> length ?buf"
    using i by (simp add: length_ico_layout)
  have b: "image_offset items i + length (snd (items ! i)) \<le> length ?buf"
    by (rule image_offset_bound [OF i])
  with small have lt: "length (snd (items ! i)) < 4294967296" "image_offset items i < 4294967296"
    by simp_all
  have size: "u32_at ?buf (6 + 16 * i + 8) = length (snd (items ! i))"
    using layout_image_size [OF i] lt by simp
  have off: "u32_at ?buf (6 + 16 * i + 12) = image_offset items i"
    using layout_image_offset [OF i] lt by simp
  have sub: "subarray ?buf (image_offset items i) (image_offset items i + length (snd (items ! i)))
               = snd (items ! i)"
    by (rule ico_layout_payload [OF i])
  show ?thesis
    unfolding parse_entry_in_range [OF inr] size off sub layout_width_byte [OF i]
      unat_dir_byte [OF sz]
    using b by simp
qed

lemma parse_entries_all_ok:
  assumes "\<And>j. i \<le> j \<Longrightarrow> j < n \<Longrightarrow> parse_entry buf j = Inr (f j)"
  shows "parse_entries buf n i acc = Inr (acc @ map f [i..<n])"
  using assms
proof (induction buf n i acc rule: parse_entries.induct)
  case (1 buf n i acc)
  show ?case
  proof (cases "i < n")
    case False
    then show ?thesis by (subst parse_entries.simps) simp
  next
    case True
    have e: "parse_entry buf i = Inr (f i)" using "1.prems" True by simp
    have "parse_entries buf n (i + 1) (acc @ [f i]) = Inr ((acc @ [f i]) @ map f [i + 1..<n])"
      by (rule "1.IH" [OF True e]) (use "1.prems" in simp)
    moreover have "[i..<n] = i # [i + 1..<n]" using True by (simp add: upt_conv_Cons)
    ultimately show ?thesis using True e by (subst parse_entries.simps) simp
  qed
qed

lemma parse_ico_layout:
  assumes ne: "items \<noteq> []" and cnt: "length items \<le> 255"
    and sz: "\<forall>(s, b) \<in> set items. 1 \<le> s \<and> s \<le> 256"
    and small: "length (ico_layout items) < 4294967296"
  shows "parse (ico_layout items)
           = Inr (map (\<lambda>(s, b). \<lparr> width = s, height = s, buffer = b,
                                     format = detect_format b \<rparr>) items)"
proof -
  let ?buf = "ico_layout items"
  let ?g = "\<lambda>(s, b). \<lparr> width = s, height = s, buffer = b, format = detect_format b \<rparr>"
  have dc: "declared_count ?buf = length items"
    using cnt by (simp add: layout_header_fields)
  have "parse ?buf = parse_entries ?buf (declared_count ?buf) 0 []"
    by (rule parse_header_ok)
      (use ne cnt in \<open>simp_all add: layout_header_fields length_ico_layout\<close>)
  also have "\<dots> = Inr ([] @ map (\<lambda>j. ?g (items ! j)) [0..<length items])"
    unfolding dc
  proof (rule parse_entries_all_ok)
    fix j assume j: "j < length items"
    then have "items ! j \<in> set items" by simp
    with sz have "1 \<le> fst (items ! j)" "fst (items ! j) \<le> 256" by (auto simp: case_prod_beta)
    from parse_entry_layout [OF j this small]
    show "parse_entry ?buf j = Inr (?g (items ! j))" by (simp add: case_prod_beta)
  qed
  finally have p: "parse ?buf = Inr (map (\<lambda>j. ?g (items ! j)) [0..<length items])" by simp
  have "map ?g (map ((!) items) [0..<length items]) = map ?g items"
    by (simp only: map_nth)
  then have "map (\<lambda>j. ?g (items ! j)) [0..<length items] = map ?g items"
    by (simp add: comp_def del: map_nth)
  with p show ?thesis by simp
qed

lemma detect_format_png:
  assumes "take 8 b = png_signature"
  shows "detect_format b = Png"
proof -
  from assms have "length (take 8 b) = 8" by (simp add: png_signature_def)
  then have len: "8 \<le> length b" by simp
  have "b ! 0 = take 8 b ! 0" "b ! 1 = take 8 b ! 1" "b ! 2 = take 8 b ! 2" "b ! 3 = take 8 b ! 3"
    by simp_all
  with assms len show ?thesis by (simp add: detect_format_def png_signature_def)
qed

lemma sorted_images_mem:
  "(s, b) \<in> set (sorted_images imageBuffers) \<Longrightarrow> (s, b) \<in> set imageBuffers"
  using sorted_images_lookup [of imageBuffers] by (auto dest: map_of_SomeD)

lemma sorted_images_complete:
  assumes "map_of imageBuffers s = Some b"
  shows "(s, b) \<in> set (sorted_images imageBuffers)"
proof -
  from assms have "s \<in> set (map fst imageBuffers)"
    by (metis map_of_eq_None_iff option.distinct(1) set_map)
  with assms show ?thesis by (auto simp: sorted_images_def)
qed

lemma unat_dir_byte_mod: "unat (dir_byte s) = (if s = 256 then 0 else s mod 256)"
  by (simp add: dir_byte_def unat_byte)

lemma canonical_sizes_sorted:
  assumes "set (map fst imageBuffers) = set ICON_SIZES"
  shows "sort (remdups (map fst imageBuffers)) = ICON_SIZES"
proof (rule sorted_distinct_set_unique)
  show "sorted (sort (remdups (map fst imageBuffers)))" by simp
  show "distinct (sort (remdups (map fst imageBuffers)))" by simp
  show "sorted ICON_SIZES" "distinct ICON_SIZES" by (simp_all add: ICON_SIZES_def)
  show "set (sort (remdups (map fst imageBuffers))) = set ICON_SIZES" using assms by simp
qed

lemma canonical_container:
  assumes "set (map fst imageBuffers) = set ICON_SIZES"
  shows "take 6 (ico_layout (sorted_images imageBuffers)) = [0, 0, 1, 0, 7, 0]"
    and "map (\<lambda>i. ico_layout (sorted_images imageBuffers) ! (6 + i * 16)) [0..<7]
           = [16, 20, 24, 32, 40, 64, 0]"
    and "map (\<lambda>i. ico_layout (sorted_images imageBuffers) ! (6 + i * 16 + 1)) [0..<7]
           = [16, 20, 24, 32, 40, 64, 0]"
proof -
  let ?items = "sorted_images imageBuffers"
  have keys: "map fst ?items = ICON_SIZES"
    using canonical_sizes_sorted [OF assms] by simp
  have "length (map fst ?items) = length ?items" by (rule length_map)
  also have "length (map fst ?items) = length ICON_SIZES" by (simp only: keys)
  also have "length ICON_SIZES = 7" by (simp add: ICON_SIZES_def)
  finally have len: "length ?items = 7" by (rule sym)
  have "take 6 (ico_layout ?items) = ico_header (length ?items)"
    unfolding ico_layout_alt by (simp del: length_sorted_images)
  then show "take 6 (ico_layout ?items) = [0, 0, 1, 0, 7, 0]"
    unfolding len by (simp add: ico_header_def u16le_def)
  have fst_nth: "fst (?items ! i) = ICON_SIZES ! i" if "i < 7" for i
  proof -
    from that len have "i < length ?items" by (simp only:)
    then have "map fst ?items ! i = fst (?items ! i)" by (rule nth_map)
    then show ?thesis by (simp only: keys)
  qed
  have w: "ico_layout ?items ! (6 + i * 16) = dir_byte (ICON_SIZES ! i)"
    and h: "ico_layout ?items ! (6 + i * 16 + 1) = dir_byte (ICON_SIZES ! i)" if "i < 7" for i
  proof -
    from that len have i: "i < length ?items" by (simp only:)
    show "ico_layout ?items ! (6 + i * 16) = dir_byte (ICON_SIZES ! i)"
      "ico_layout ?items ! (6 + i * 16 + 1) = dir_byte (ICON_SIZES ! i)"
      unfolding layout_width_byte [OF i] fst_nth [OF that] by (rule refl)+
  qed
  have bytes: "map (\<lambda>i. dir_byte (ICON_SIZES ! i)) [0..<7] = [16, 20, 24, 32, 40, 64, 0]"
    by (simp add: ICON_SIZES_def dir_byte_def upt_rec)
  have "map (\<lambda>i. ico_layout ?items ! (6 + i * 16)) [0..<7]
          = map (\<lambda>i. dir_byte (ICON_SIZES ! i)) [0..<7]"
    by (rule map_cong [OF refl]) (simp only: w set_upt atLeastLessThan_iff)
  with bytes
  show "map (\<lambda>i. ico_layout ?items ! (6 + i * 16)) [0..<7] = [16, 20, 24, 32, 40, 64, 0]"
    by (simp only:)
  have "map (\<lambda>i. ico_layout ?items ! (6 + i * 16 + 1)) [0..<7]
          = map (\<lambda>i. dir_byte (ICON_SIZES ! i)) [0..<7]"
    by (rule map_cong [OF refl]) (simp only: h set_upt atLeastLessThan_iff)
  with bytes
  show "map (\<lambda>i. ico_layout ?items ! (6 + i * 16 + 1)) [0..<7] = [16, 20, 24, 32, 40, 64, 0]"
    by (simp only:)
qed




text \<open>
  Claim C2, as amended. For a map that is not empty, has at most 255 sizes, all between 1
  and 256, whose buffers start with the PNG signature, and whose container stays below
  \<open>2 ^ 32\<close> bytes: the writer returns a buffer, the reader parses it, and the descriptors
  are those of the sizes in ascending order: width and height the size (256 from the
  directory byte 0), format PNG, payload the very buffer of that size.
\<close>

theorem write_then_parse:
  assumes "imageBuffers \<noteq> []"
    and "length (remdups (map fst imageBuffers)) \<le> 255"
    and "\<forall>(s, b) \<in> set imageBuffers. 1 \<le> s \<and> s \<le> 256 \<and> take 8 b = png_signature"
    and "6 + 16 * length (sorted_images imageBuffers) + payload_length (sorted_images imageBuffers)
           < 2 ^ 32"
  shows "\<exists>ico imgs. createIcoFromPngs imageBuffers = Inr ico \<and> parse ico = Inr imgs
           \<and> imgs = map png_descriptor (sorted_images imageBuffers)
           \<and> length imgs = length (remdups (map fst imageBuffers))
           \<and> (\<forall>s b. map_of imageBuffers s = Some b \<longrightarrow>
                 \<lparr> width = s, height = s, buffer = b, format = Png \<rparr> \<in> set imgs)"
proof -
  let ?items = "sorted_images imageBuffers"
  have mem: "(s, b) \<in> set imageBuffers" if "(s, b) \<in> set ?items" for s b
    using that by (rule sorted_images_mem)
  have l0: "length ?items \<noteq> 0" using assms(1) by simp
  have ne: "?items \<noteq> []"
  proof
    assume "?items = []"
    then have "length ?items = 0" by (simp only: list.size(3))
    with l0 show False by (rule notE)
  qed
  have cnt: "length ?items \<le> 255" using assms(2) by simp
  have sz: "\<forall>(s, b) \<in> set ?items. 1 \<le> s \<and> s \<le> 256" using assms(3) mem by fastforce
  have small: "length (ico_layout ?items) < 4294967296"
    using assms(4) by (simp add: length_ico_layout del: length_sorted_images)
  have png: "detect_format b = Png" if "(s, b) \<in> set ?items" for s b
    using assms(3) mem [OF that] by (auto intro: detect_format_png)
  have "map (\<lambda>(s, b). \<lparr> width = s, height = s, buffer = b, format = detect_format b \<rparr>) ?items
          = map png_descriptor ?items"
    by (rule map_cong [OF refl]) (auto simp: png_descriptor_def png)
  with parse_ico_layout [OF ne cnt sz small]
  have p: "parse (ico_layout ?items) = Inr (map png_descriptor ?items)" by simp
  have each: "\<lparr> width = s, height = s, buffer = b, format = Png \<rparr>
                \<in> set (map png_descriptor ?items)" if "map_of imageBuffers s = Some b" for s b
  proof -
    from sorted_images_complete [OF that] have "png_descriptor (s, b) \<in> png_descriptor ` set ?items"
      by (rule imageI)
    then show ?thesis by (simp add: png_descriptor_def)
  qed
  show ?thesis
  proof (intro exI conjI allI impI)
    show "createIcoFromPngs imageBuffers = Inr (ico_layout ?items)"
      by (rule createIcoFromPngs_layout)
    show "parse (ico_layout ?items) = Inr (map png_descriptor ?items)" by (rule p)
    show "map png_descriptor ?items = map png_descriptor ?items" by (rule refl)
    show "length (map png_descriptor ?items) = length (remdups (map fst imageBuffers))" by simp
    show "\<lparr> width = s, height = s, buffer = b, format = Png \<rparr> \<in> set (map png_descriptor ?items)"
      if "map_of imageBuffers s = Some b" for s b
      using that by (rule each)
  qed
qed

text \<open>
  Two sizes, 256 and 16, with buffers that start with the PNG signature.
\<close>

theorem write_then_parse_witness:
  "createIcoFromPngs [(256, png_signature), (16, png_signature @ [1])]
     = Inr (ico_layout [(16, png_signature @ [1]), (256, png_signature)])
   \<and> parse (ico_layout [(16, png_signature @ [1]), (256, png_signature)])
     = Inr [\<lparr> width = 16, height = 16, buffer = png_signature @ [1], format = Png \<rparr>,
            \<lparr> width = 256, height = 256, buffer = png_signature, format = Png \<rparr>]"
proof -
  let ?al = "[(256, png_signature), (16, png_signature @ [1])] :: image_buffers"
  let ?items = "[(16, png_signature @ [1]), (256, png_signature)] :: image_buffers"
  have s: "sorted_images ?al = ?items" by (simp add: sorted_images_def)
  have h1: "?al \<noteq> []" by simp
  have h2: "length (remdups (map fst ?al)) \<le> 255" by simp
  have h3: "\<forall>(s, b) \<in> set ?al. 1 \<le> s \<and> s \<le> 256 \<and> take 8 b = png_signature"
    by (simp add: png_signature_def)
  have h4: "6 + 16 * length (sorted_images ?al) + payload_length (sorted_images ?al) < 2 ^ 32"
    unfolding s by (simp add: png_signature_def)
  from write_then_parse [OF h1 h2 h3 h4] obtain ico imgs where
    r: "createIcoFromPngs ?al = Inr ico" "parse ico = Inr imgs"
       "imgs = map png_descriptor (sorted_images ?al)" by blast
  have l: "createIcoFromPngs ?al = Inr (ico_layout ?items)"
    using createIcoFromPngs_layout [of ?al] by (simp only: s)
  with r(1) have "ico = ico_layout ?items" by simp
  moreover from r(3) have "imgs = [\<lparr> width = 16, height = 16, buffer = png_signature @ [1], format = Png \<rparr>,
            \<lparr> width = 256, height = 256, buffer = png_signature, format = Png \<rparr>]"
    unfolding s by (simp add: png_descriptor_def)
  ultimately show ?thesis using l r(2) by (simp only:)
qed

text \<open>
  Claim C2 as stated fails for the empty map: the writer returns the 6-byte header with
  count 0, which the reader refuses (its image count must be between 1 and 255).
\<close>

theorem write_then_parse_counterexample:
  "createIcoFromPngs [] = Inr [0, 0, 1, 0, 0, 0]
   \<and> parse [0, 0, 1, 0, 0, 0] = Inl InvalidImageCount"
  by (simp add: createIcoFromPngs_layout sorted_images_def ico_layout_def ico_header_def
      u16le_def parse_def readUInt16LE_def)

section \<open>Properties of reordering\<close>

lemma mset_sorted_layers: "mset (sort_key (\<lambda>l. - layer_order l) layers) = mset layers"
  by simp

lemma reorderLayers_valid:
  assumes "dragIndex < length layers" "hoverIndex < length layers"
  shows "reorderLayers layers dragIndex hoverIndex
           = map (\<lambda>layer.
                  if layer_id layer
                     = layer_id (sort_key (\<lambda>l. - layer_order l) layers ! dragIndex)
                  then layer\<lparr>layer_order :=
                         layer_order (sort_key (\<lambda>l. - layer_order l) layers ! hoverIndex)\<rparr>
                  else if layer_id layer
                     = layer_id (sort_key (\<lambda>l. - layer_order l) layers ! hoverIndex)
                  then layer\<lparr>layer_order :=
                         layer_order (sort_key (\<lambda>l. - layer_order l) layers ! dragIndex)\<rparr>
                  else layer) layers"
  using assms by (simp add: reorderLayers_def Let_def)

lemma swap_orders_mset:
  fixes g :: "Layer \<Rightarrow> Layer"
  assumes dist: "distinct (map layer_id layers)"
    and d: "d \<in> set layers" and t: "t \<in> set layers" and ne: "layer_id d \<noteq> layer_id t"
    and gd: "layer_order (g d) = layer_order t" and gt: "layer_order (g t) = layer_order d"
    and other: "\<And>l. l \<in> set layers \<Longrightarrow> layer_id l \<noteq> layer_id d \<Longrightarrow> layer_id l \<noteq> layer_id t
                   \<Longrightarrow> g l = l"
  shows "mset (map layer_order (map g layers)) = mset (map layer_order layers)"
proof -
  from dist have dl: "distinct layers" by (simp add: distinct_map)
  from dist have inj: "inj_on layer_id (set layers)" by (simp add: distinct_map)
  from ne have dt: "d \<noteq> t" by auto
  define M where "M = mset layers - {#d#} - {#t#}"
  have 1: "d \<in># mset layers" using d by simp
  have 2: "t \<in># mset layers - {#d#}" using t dt by (simp add: in_diff_count)
  have "mset layers = add_mset d (mset layers - {#d#})" using 1 by simp
  also have "mset layers - {#d#} = add_mset t M"
    unfolding M_def using 2 by (rule insert_DiffM [symmetric])
  finally have split: "mset layers = add_mset d (add_mset t M)" .
  have Mmem: "l \<in> set layers \<and> l \<noteq> d \<and> l \<noteq> t" if "l \<in># M" for l
  proof -
    have c: "count (mset layers) l = (if l = d then 1 else 0) + (if l = t then 1 else 0) + count M l"
      by (simp add: split)
    have "count (mset layers) l \<le> 1" using dl by (simp add: distinct_count_atmost_1)
    moreover from that have "count M l \<ge> 1" by (simp add: Suc_le_eq)
    ultimately have "l \<noteq> d" "l \<noteq> t" using c by (auto split: if_splits simp: count_eq_zero_iff)
    moreover from that have "l \<in> set layers" by (auto simp: M_def dest!: in_diffD)
    ultimately show ?thesis by simp
  qed
  have "image_mset (\<lambda>l. layer_order (g l)) M = image_mset layer_order M"
  proof (rule image_mset_cong)
    fix l assume "l \<in># M"
    from Mmem [OF this] have l: "l \<in> set layers" "l \<noteq> d" "l \<noteq> t" by simp_all
    with inj d t have "layer_id l \<noteq> layer_id d" "layer_id l \<noteq> layer_id t"
      by (auto dest: inj_onD)
    with other l(1) show "layer_order (g l) = layer_order l" by simp
  qed
  then have "image_mset (\<lambda>l. layer_order (g l)) (mset layers) = image_mset layer_order (mset layers)"
    unfolding split by (simp add: gd gt)
  then show ?thesis by (simp add: comp_def)
qed


lemma sorted_default_layers:
  "sort_key (\<lambda>l. - layer_order l) createDefaultLayers
     = [createDefaultLayers ! 2, createDefaultLayers ! 1, createDefaultLayers ! 0]"
  by (simp add: createDefaultLayers_def)



section \<open>Properties of compositing\<close>

lemma isVisible_resolved: "isVisible layer sz = resolved_visible layer sz"
  by (simp add: isVisible_def resolved_visible_def split: option.splits)

lemma CanvasRenderer_render_layers:
  assumes "loadImage (getFolderAsset Back sz)" "loadImage (getFolderAsset Front sz)"
  shows "\<exists>passes. CanvasRenderer_render loadImage layers sz = Inr passes
           \<and> map pass_layer passes
               = map layer_id (filter (\<lambda>l. resolved_visible l sz) (sort_key layer_order layers))"
  using assms
  by (simp add: CanvasRenderer_render_def Let_def comp_def isVisible_resolved)

lemma CanvasRenderer_render_skips:
  assumes "CanvasRenderer_render loadImage layers sz = Inr passes"
  shows "CanvasRenderer_render loadImage (filter (\<lambda>l. resolved_visible l sz) layers) sz
           = Inr passes"
proof -
  have "filter (\<lambda>l. resolved_visible l sz)
          (sort_key layer_order (filter (\<lambda>l. resolved_visible l sz) layers))
        = filter (\<lambda>l. resolved_visible l sz) (sort_key layer_order layers)"
    by (simp add: filter_sort)
  with assms show ?thesis
    by (simp add: CanvasRenderer_render_def Let_def isVisible_resolved split: if_splits)
qed

lemma renderLayersToCanvas_layers:
  "map pass_layer (renderLayersToCanvas loadImage layers sz)
     = map layer_id (filter visible (sort_key layer_order layers))"
  by (simp add: renderLayersToCanvas_def Let_def comp_def)

text \<open>
  Claim C6, at its failing input. The preview renderer (\<open>CanvasRenderer.render\<close>)
  resolves the visibility of a layer at the size, as the lemmas above say. The renderer of
  the export (\<open>ClientIconGenerator.renderLayersToCanvas\<close>) tests \<open>layer.visible\<close> alone:
  the back folder of the default stack, hidden at size 16 by \<open>visibilityBySize\<close>, is drawn
  by the export at size 16 and skipped by the preview; hidden globally and shown at size 16,
  it is skipped by the export and drawn by the preview.
\<close>

theorem renderLayersToCanvas_ignores_visibilityBySize:
  "resolved_visible ((createDefaultLayers ! 0)\<lparr>visibilityBySize := Some [16 \<mapsto> False]\<rparr>) 16
     = False
   \<and> renderLayersToCanvas (\<lambda>img. True)
       [(createDefaultLayers ! 0)\<lparr>visibilityBySize := Some [16 \<mapsto> False]\<rparr>] 16
     = [\<lparr> pass_layer = ''back-folder'', pass_alpha = 1,
          pass_ops = [DrawImage (FolderAsset Back 16) 0 0 16 16] \<rparr>]
   \<and> CanvasRenderer_render (\<lambda>img. True)
       [(createDefaultLayers ! 0)\<lparr>visibilityBySize := Some [16 \<mapsto> False]\<rparr>] 16
     = Inr []
   \<and> resolved_visible
       ((createDefaultLayers ! 0)\<lparr>visible := False, visibilityBySize := Some [16 \<mapsto> True]\<rparr>) 16
     = True
   \<and> renderLayersToCanvas (\<lambda>img. True)
       [(createDefaultLayers ! 0)\<lparr>visible := False, visibilityBySize := Some [16 \<mapsto> True]\<rparr>] 16
     = []
   \<and> CanvasRenderer_render (\<lambda>img. True)
       [(createDefaultLayers ! 0)\<lparr>visible := False, visibilityBySize := Some [16 \<mapsto> True]\<rparr>] 16
     = Inr [\<lparr> pass_layer = ''back-folder'', pass_alpha = 1,
              pass_ops = [DrawImage (FolderAsset Back 16) 0 0 16 16] \<rparr>]"
  by (simp add: resolved_visible_def renderLayersToCanvas_def CanvasRenderer_render_def
      isVisible_def createDefaultLayers_def renderFolderLayer_def getFolderAsset_def
      draw_folder_def Let_def)

lemma currentPosition_resolved: "currentPosition layer sz = resolved_position layer sz"
  by (simp add: currentPosition_def resolved_position_def split: option.splits)

lemma currentScale_resolved: "currentScale layer sz = resolved_scale layer sz"
  by (simp add: currentScale_def resolved_scale_def split: option.splits)

lemma draw_user_image_op:
  "draw_user_image layer img sz
     = [place_image layer img
          (pos_x (resolved_position layer sz) * (of_nat sz / 256)
             - of_nat sz * resolved_scale layer sz / 2)
          (pos_y (resolved_position layer sz) * (of_nat sz / 256)
             - of_nat sz * resolved_scale layer sz / 2)
          (of_nat sz * resolved_scale layer sz)]"
  by (simp add: draw_user_image_def place_image_def applyColorToImage_def Let_def
      currentPosition_resolved currentScale_resolved split: option.splits)

lemma renderUserImageLayer_source:
  "renderUserImageLayer loadImage layer sz
     = (case resolved_source layer sz of
          None \<Rightarrow> []
        | Some url \<Rightarrow> if loadImage (ImageUrl url)
                      then draw_user_image layer (ImageUrl url) sz else [])"
  by (auto simp: renderUserImageLayer_def resolved_source_def nonempty_source_def Let_def
      split: option.splits)

lemma renderUserImage_source:
  assumes "resolved_source layer sz = Some url" "loadImage (ImageUrl url)"
  shows "renderUserImage loadImage layer sz = draw_user_image layer (ImageUrl url) sz"
  using assms
  by (auto simp: renderUserImage_def resolved_source_def nonempty_source_def Let_def
      split: option.splits if_splits)

lemma renderUserImage_none:
  assumes "resolved_source layer sz = None"
  shows "renderUserImage loadImage layer sz = []"
  using assms
  by (auto simp: renderUserImage_def resolved_source_def nonempty_source_def Let_def
      split: option.splits if_splits)




end
